theory Spec2Isabelle
  imports Complex_Main
begin

section \<open>Data model (types.ts)\<close>

text \<open>
  A JavaScript \<^verbatim>\<open>number\<close> is modelled by \<open>number\<close>: \<open>NaN\<close>, the two infinities, and
  the finite values, each represented by the rational it denotes (the two zeros are
  identified).  Reading a decimal literal rounds to the nearest double and overflows to
  an infinity (\<open>to_double\<close> below); subtraction and multiplication of finite values are
  taken exactly.
\<close>

datatype number = NaN | Fin rat | PosInf | NegInf

datatype TicketStatus = OPEN | CLOSED

text \<open>
  The interface \<^verbatim>\<open>Ticket\<close>.  A field declared with \<^verbatim>\<open>?\<close> is an \<open>option\<close>: \<open>None\<close>
  is an absent property.  The field \<^verbatim>\<open>id\<close> is called \<open>id_t\<close>.
\<close>

record Ticket =
  id_t :: string
  licensePlate :: string
  companyName :: "string option"
  materialType :: string
  inboundWeight :: number
  inboundTime :: nat
  inboundImage :: string
  outboundWeight :: "number option"
  outboundTime :: "nat option"
  outboundImage :: "string option"
  netWeight :: "number option"
  ratePerKg :: "number option"
  totalCost :: "number option"
  status :: TicketStatus

section \<open>The ticket ledger (storageService.ts)\<close>

text \<open>
  The ledger is the item stored under the key \<^verbatim>\<open>reuse_canada_tickets\<close> of localStorage:
  \<open>None\<close> when the key was never written, otherwise the serialised array, which the
  model keeps as the list of tickets itself.
\<close>

type_synonym storage = "Ticket list option"

definition getTickets :: "storage \<Rightarrow> Ticket list" where
  "getTickets data = (case data of None \<Rightarrow> [] | Some ts \<Rightarrow> ts)"

text \<open>\<^verbatim>\<open>Array.prototype.findIndex\<close>; \<open>None\<close> stands for the result \<open>-1\<close>.\<close>

fun findIndex :: "('a \<Rightarrow> bool) \<Rightarrow> 'a list \<Rightarrow> nat option" where
  "findIndex P [] = None"
| "findIndex P (x # xs) = (if P x then Some 0 else map_option Suc (findIndex P xs))"

definition saveTicket :: "Ticket \<Rightarrow> storage \<Rightarrow> storage" where
  "saveTicket ticket data =
     (let tickets = getTickets data;
          existingIndex = findIndex (\<lambda>t. id_t t = id_t ticket) tickets
      in Some (case existingIndex of
                 Some i \<Rightarrow> tickets[i := ticket]
               | None \<Rightarrow> tickets @ [ticket]))"

definition findOpenTicketByPlate :: "string \<Rightarrow> storage \<Rightarrow> Ticket option" where
  "findOpenTicketByPlate plate data =
     (if plate = ''UNKNOWN'' then None
      else find (\<lambda>t. status t = OPEN \<and> licensePlate t = plate) (getTickets data))"

text \<open>The records of a collection that carry a given id, and the others, in stored order.\<close>

definition with_id :: "string \<Rightarrow> Ticket list \<Rightarrow> Ticket list" where
  "with_id k ts = filter (\<lambda>x. id_t x = k) ts"

definition without_id :: "string \<Rightarrow> Ticket list \<Rightarrow> Ticket list" where
  "without_id k ts = filter (\<lambda>x. id_t x \<noteq> k) ts"

text \<open>The predicate that \<open>findOpenTicketByPlate\<close> hands to \<^verbatim>\<open>find\<close>.\<close>

definition open_with_plate :: "string \<Rightarrow> Ticket \<Rightarrow> bool" where
  "open_with_plate plate t \<longleftrightarrow> status t = OPEN \<and> licensePlate t = plate"

text \<open>A sample ticket as \<open>processInbound\<close> builds it, for the concrete evaluations below.\<close>

definition sample_ticket :: "string \<Rightarrow> string \<Rightarrow> TicketStatus \<Rightarrow> Ticket" where
  "sample_ticket i p s =
     \<lparr>id_t = i, licensePlate = p, companyName = None, materialType = ''Mixed Metal'',
      inboundWeight = Fin 20000, inboundTime = 0, inboundImage = '''',
      outboundWeight = None, outboundTime = None, outboundImage = None,
      netWeight = None, ratePerKg = None, totalCost = None, status = s\<rparr>"

section \<open>Text and numbers of the host language\<close>

text \<open>
  Text is a \<open>string\<close>, one \<open>char\<close> per code unit; the model covers code units below 256,
  which is what a scale indicator sends.  \<open>is_space\<close> is the white space that
  \<^verbatim>\<open>String.prototype.trim\<close> and \<^verbatim>\<open>parseFloat\<close> strip (tab, line feed, vertical tab, form
  feed, carriage return, space, no-break space), \<open>is_digit\<close> is the class \<^verbatim>\<open>\d\<close>.
\<close>

definition is_space :: "char \<Rightarrow> bool" where
  "is_space c \<longleftrightarrow> c \<in> set [CHR 0x09, CHR 0x0A, CHR 0x0B, CHR 0x0C, CHR 0x0D, CHR 0x20, CHR 0xA0]"

definition is_digit :: "char \<Rightarrow> bool" where
  "is_digit c \<longleftrightarrow> c \<in> set ''0123456789''"

definition trim :: "string \<Rightarrow> string" where
  "trim s = rev (dropWhile is_space (rev (dropWhile is_space s)))"

definition digit_val :: "char \<Rightarrow> nat" where
  "digit_val c = of_char c - 48"

definition digits_val :: "string \<Rightarrow> nat" where
  "digits_val ds = foldl (\<lambda>a c. 10 * a + digit_val c) 0 ds"

text \<open>
  \<^verbatim>\<open>parseFloat\<close>: skip leading white space, then read the longest prefix that is a decimal
  literal: an optional sign, then \<^verbatim>\<open>Infinity\<close>, or digits with an optional fraction (digits
  before or after the point, at least one digit in all) and an optional exponent (taken
  only when it has a digit).  No such prefix gives \<open>NaN\<close>; the value of the literal is
  rounded by \<open>to_double\<close>.
\<close>

definition exponent_part :: "string \<Rightarrow> int" where
  "exponent_part s =
     (case s of
        [] \<Rightarrow> 0
      | e # r \<Rightarrow>
          if e = CHR ''e'' \<or> e = CHR ''E'' then
            (case r of
               [] \<Rightarrow> 0
             | g # r' \<Rightarrow>
                 if g = CHR ''-'' then
                   (if takeWhile is_digit r' = [] then 0
                    else - int (digits_val (takeWhile is_digit r')))
                 else if g = CHR ''+'' then int (digits_val (takeWhile is_digit r'))
                 else int (digits_val (takeWhile is_digit r)))
          else 0)"

definition scale10 :: "rat \<Rightarrow> int \<Rightarrow> rat" where
  "scale10 m e = (if 0 \<le> e then m * 10 ^ nat e else m / 10 ^ nat (- e))"

definition unsigned_literal :: "string \<Rightarrow> rat option" where
  "unsigned_literal s =
     (let ip = takeWhile is_digit s; r = dropWhile is_digit s
      in case r of
           [] \<Rightarrow> if ip = [] then None else Some (of_nat (digits_val ip))
         | d # r' \<Rightarrow>
             if d = CHR ''.'' then
               (let fp = takeWhile is_digit r'; r'' = dropWhile is_digit r'
                in if ip = [] \<and> fp = [] then None
                   else Some (scale10
                     (of_nat (digits_val ip) + of_nat (digits_val fp) / 10 ^ length fp)
                     (exponent_part r'')))
             else if ip = [] then None
             else Some (scale10 (of_nat (digits_val ip)) (exponent_part r)))"

text \<open>
  The number value of a mathematical value: the nearest double, ties to the even
  significand, and an infinity from the midpoint between the largest double
  \<open>2 ^ 1024 - 2 ^ 971\<close> and \<open>2 ^ 1024\<close> on.  \<open>ilog2 n\<close> is the position of the leading bit
  of \<open>n\<close>; \<open>binade a\<close> is the exponent of the binade of \<open>a > 0\<close>, not below that of the
  subnormal numbers; a double of that binade is a multiple of \<open>pow2 (binade a - 52)\<close>.
\<close>

function ilog2 :: "nat \<Rightarrow> nat" where
  "ilog2 n = (if n < 2 then 0 else Suc (ilog2 (n div 2)))"
  by pat_completeness auto
termination
  by (relation "measure id") auto

declare ilog2.simps [simp del]

definition pow2 :: "int \<Rightarrow> rat" where
  "pow2 k = (if 0 \<le> k then 2 ^ nat k else 1 / 2 ^ nat (- k))"

definition binade :: "rat \<Rightarrow> int" where
  "binade a =
     (if 1 \<le> a then int (ilog2 (nat \<lfloor>a\<rfloor>))
      else max (- 1022) (- (int (ilog2 (nat (\<lceil>1 / a\<rceil> - 1))) + 1)))"

definition round_half_even :: "rat \<Rightarrow> int" where
  "round_half_even q =
     (let f = \<lfloor>q\<rfloor>; d = q - of_int f
      in if d < 1 / 2 then f
         else if 1 / 2 < d then f + 1
         else if even f then f else f + 1)"

definition nearest_double :: "rat \<Rightarrow> rat" where
  "nearest_double a =
     (if a = 0 then 0
      else (let ulp = pow2 (binade a - 52)
            in of_int (round_half_even (a / ulp)) * ulp))"

definition to_double :: "rat \<Rightarrow> number" where
  "to_double v =
     (if 2 ^ 1024 - 2 ^ 970 \<le> \<bar>v\<bar> then (if v < 0 then NegInf else PosInf)
      else Fin (sgn v * nearest_double \<bar>v\<bar>))"

definition parseFloat :: "string \<Rightarrow> number" where
  "parseFloat s =
     (let t = dropWhile is_space s;
          neg = (t \<noteq> [] \<and> hd t = CHR ''-'');
          u = (if t \<noteq> [] \<and> (hd t = CHR ''-'' \<or> hd t = CHR ''+'') then tl t else t)
      in if take 8 u = ''Infinity'' then (if neg then NegInf else PosInf)
         else case unsigned_literal u of
                None \<Rightarrow> NaN
              | Some m \<Rightarrow> to_double (if neg then - m else m))"

definition isNaN :: "number \<Rightarrow> bool" where
  "isNaN v \<longleftrightarrow> v = NaN"

section \<open>The scale service (scaleService.ts)\<close>

subsection \<open>Framing and parsing\<close>

definition is_terminator :: "char \<Rightarrow> bool" where
  "is_terminator c \<longleftrightarrow> c = CHR 0x0D \<or> c = CHR 0x0A"

text \<open>
  \<^verbatim>\<open>s.split(/[\r\n]+/)\<close>: the pieces of \<open>s\<close> between maximal runs of terminators; a run at
  the start or the end of \<open>s\<close> gives an empty first or last piece, and the empty text has the
  one piece \<open>''''\<close>.
\<close>

function split_lines :: "string \<Rightarrow> string list" where
  "split_lines [] = [[]]"
| "split_lines (c # cs) =
     (if is_terminator c then [] # split_lines (dropWhile is_terminator cs)
      else (case split_lines cs of
              [] \<Rightarrow> [[c]]
            | l # ls \<Rightarrow> (c # l) # ls))"
  by pat_completeness auto
termination
  by (relation "measure length") (auto simp: less_Suc_eq_le length_dropWhile_le)

text \<open>
  \<^verbatim>\<open>rawString.match(/(\d+(\.\d+)?)/)\<close>: the match starts at the first digit, takes the whole
  run of digits and then, when a point and a digit follow, the point and the digits
  after it.  \<open>None\<close> is the result \<^verbatim>\<open>null\<close>, \<open>Some m\<close> is \<^verbatim>\<open>match[0]\<close>.
\<close>

definition match_number :: "string \<Rightarrow> string option" where
  "match_number s =
     (let r = dropWhile (\<lambda>c. \<not> is_digit c) s
      in if r = [] then None
         else (let ds = takeWhile is_digit r; rest = dropWhile is_digit r
               in case rest of
                    [] \<Rightarrow> Some ds
                  | d # rest' \<Rightarrow>
                      if d = CHR ''.'' \<and> takeWhile is_digit rest' \<noteq> []
                      then Some (ds @ [d] @ takeWhile is_digit rest')
                      else Some ds))"

definition parseWeight :: "string \<Rightarrow> number option" where
  "parseWeight rawString =
     (case match_number rawString of
        Some m \<Rightarrow> (let val = parseFloat m in if \<not> isNaN val then Some val else None)
      | None \<Rightarrow> None)"

text \<open>
  The private state of a \<^verbatim>\<open>ScaleService\<close>.  A serial port is known by what the service
  asks of it: whether it has a readable stream, and how \<^verbatim>\<open>open({ baudRate: 9600 })\<close>
  settles.  \<open>reader\<close> and \<open>readableStreamClosed\<close> record whether the field is set.
\<close>

datatype exn = Error string | DOMException string

record SerialPort =
  readable :: bool
  open_result :: "exn + unit"

record ScaleService =
  port :: "SerialPort option"
  reader :: bool
  readableStreamClosed :: bool
  isReading :: bool
  buffer :: string

definition new_ScaleService :: ScaleService where
  "new_ScaleService =
     \<lparr>port = None, reader = False, readableStreamClosed = False, isReading = False,
      buffer = ''''\<rparr>"

text \<open>
  \<open>processData\<close> returns the weights handed to \<^verbatim>\<open>onWeightUpdate\<close>, in call order, and the
  service with its new buffer.  \<^verbatim>\<open>lines.pop() || ''\<close> is the last piece, or \<open>''''\<close> for an
  empty array.
\<close>

definition line_weights :: "string \<Rightarrow> number list" where
  "line_weights line =
     (if length (trim line) > 0
      then (case parseWeight line of Some weight \<Rightarrow> [weight] | None \<Rightarrow> [])
      else [])"

definition processData :: "string \<Rightarrow> ScaleService \<Rightarrow> number list \<times> ScaleService" where
  "processData chunk svc =
     (let buf = buffer svc @ chunk;
          lines = split_lines buf;
          rest = (if lines = [] then [] else last lines);
          lines' = butlast lines
      in (concat (map line_weights lines'), svc\<lparr>buffer := rest\<rparr>))"

text \<open>The read loop hands every chunk it reads to \<open>processData\<close>, in order.\<close>

fun feed :: "string list \<Rightarrow> ScaleService \<Rightarrow> number list \<times> ScaleService" where
  "feed [] svc = ([], svc)"
| "feed (chunk # chunks) svc =
     (let (ws, svc') = processData chunk svc;
          (ws', svc'') = feed chunks svc'
      in (ws @ ws', svc''))"

text \<open>
  For the proofs, framing is also read as one pass over the text: \<open>frames cur x\<close> gives
  the non-empty complete lines of \<open>cur @ x\<close> and the unterminated rest, where \<open>cur\<close> is
  the text already read since the last terminator.  \<open>lines_of\<close> and \<open>rest_of\<close> are the same
  two results as \<open>processData\<close> computes them.
\<close>

fun frames :: "string \<Rightarrow> string \<Rightarrow> string list \<times> string" where
  "frames cur [] = ([], cur)"
| "frames cur (c # cs) =
     (if is_terminator c
      then (let (ls, r) = frames [] cs in ((if cur = [] then [] else [cur]) @ ls, r))
      else frames (cur @ [c]) cs)"

definition no_terminator :: "string \<Rightarrow> bool" where
  "no_terminator s \<longleftrightarrow> (\<forall>c \<in> set s. \<not> is_terminator c)"

definition lines_of :: "string \<Rightarrow> string list" where
  "lines_of x = filter (\<lambda>l. l \<noteq> []) (butlast (split_lines x))"

definition rest_of :: "string \<Rightarrow> string" where
  "rest_of x = last (split_lines x)"

subsection \<open>Connecting\<close>

text \<open>
  The platform as \<open>connect\<close> sees it: \<open>None\<close> when \<^verbatim>\<open>navigator\<close> has no \<^verbatim>\<open>serial\<close>, otherwise
  how \<^verbatim>\<open>navigator.serial.requestPort()\<close> settles: rejected with an exception (the user
  dismissed the chooser, or the system refused), or resolved with a port or with nothing.
\<close>

type_synonym navigator = "(exn + SerialPort option) option"

text \<open>
  \<open>readLoop\<close> up to its first \<^verbatim>\<open>await\<close>: it returns at once without a readable stream,
  otherwise it pipes the stream into a decoder and takes a reader.
\<close>

definition readLoop_start :: "ScaleService \<Rightarrow> ScaleService" where
  "readLoop_start svc =
     (case port svc of
        None \<Rightarrow> svc
      | Some p \<Rightarrow>
          if \<not> readable p then svc
          else svc\<lparr>readableStreamClosed := True, reader := True\<rparr>)"

text \<open>
  \<open>connect\<close> returns how its promise settles (\<open>Inl\<close> a thrown exception, \<open>Inr\<close> the value
  returned), the service, and what was passed to \<^verbatim>\<open>console.error\<close>.
\<close>

definition connect :: "navigator \<Rightarrow> ScaleService \<Rightarrow> (exn + bool) \<times> ScaleService \<times> exn list" where
  "connect nav svc =
     (case nav of
        None \<Rightarrow> (Inl (Error ''Web Serial API not supported in this browser.''), svc, [])
      | Some request \<Rightarrow>
          (case request of
             Inl error \<Rightarrow> (Inr False, svc, [error])
           | Inr p \<Rightarrow>
               (let svc1 = svc\<lparr>port := p\<rparr>
                in case p of
                     None \<Rightarrow> (Inr False, svc1, [])
                   | Some sp \<Rightarrow>
                       (case open_result sp of
                          Inl error \<Rightarrow> (Inr False, svc1, [error])
                        | Inr u \<Rightarrow>
                            (Inr True, readLoop_start (svc1\<lparr>isReading := True\<rparr>), [])))))"

section \<open>Arithmetic on numbers\<close>

fun sub :: "number \<Rightarrow> number \<Rightarrow> number" where
  "sub NaN y = NaN"
| "sub x NaN = NaN"
| "sub (Fin a) (Fin b) = Fin (a - b)"
| "sub (Fin a) PosInf = NegInf"
| "sub (Fin a) NegInf = PosInf"
| "sub PosInf PosInf = NaN"
| "sub PosInf y = PosInf"
| "sub NegInf NegInf = NaN"
| "sub NegInf y = NegInf"

fun Math_abs :: "number \<Rightarrow> number" where
  "Math_abs NaN = NaN"
| "Math_abs (Fin a) = Fin \<bar>a\<bar>"
| "Math_abs PosInf = PosInf"
| "Math_abs NegInf = PosInf"

text \<open>The sign of a number that is not \<open>NaN\<close>: \<open>-1\<close>, \<open>0\<close> or \<open>1\<close>.\<close>

fun sign :: "number \<Rightarrow> int" where
  "sign (Fin a) = (if a < 0 then - 1 else if a = 0 then 0 else 1)"
| "sign PosInf = 1"
| "sign NegInf = - 1"
| "sign NaN = 0"

fun mul :: "number \<Rightarrow> number \<Rightarrow> number" where
  "mul NaN y = NaN"
| "mul x NaN = NaN"
| "mul (Fin a) (Fin b) = Fin (a * b)"
| "mul x y =
     (if sign x * sign y = 0 then NaN else if sign x * sign y < 0 then NegInf else PosInf)"

text \<open>\<^verbatim>\<open>x || 0\<close> for a number \<open>x\<close>: the falsy numbers are \<open>NaN\<close> and zero.\<close>

definition or_zero :: "number \<Rightarrow> number" where
  "or_zero x = (if x = NaN \<or> x = Fin 0 then Fin 0 else x)"

text \<open>\<^verbatim>\<open>s || d\<close> for a text \<open>s\<close>: the empty text is falsy.\<close>

definition or_text :: "string \<Rightarrow> string \<Rightarrow> string" where
  "or_text s d = (if s = [] then d else s)"

section \<open>The weighing console (WeighingConsole.tsx)\<close>

datatype Mode = IDLE | INBOUND | OUTBOUND

text \<open>The state of the component: its \<^verbatim>\<open>useState\<close> cells and the timeout ref.\<close>

record Console =
  currentWeight :: number
  isStable :: bool
  isConnected :: bool
  isSimulating :: bool
  processing :: bool
  detectedPlate :: string
  mode :: Mode
  matchedTicket :: "Ticket option"
  material :: string
  lastPrintedTicket :: "Ticket option"
  manualWeight :: string
  useManualWeight :: bool
  stabilityTimeoutRef :: "nat option"

text \<open>
  \<^verbatim>\<open>webcamRef.current\<close> is \<open>None\<close> while no camera is mounted; a mounted camera is known by
  what \<^verbatim>\<open>getScreenshot()\<close> returns (\<open>None\<close> for \<^verbatim>\<open>null\<close>).
\<close>

record Camera =
  getScreenshot :: "string option"

record RecognitionResult =
  licensePlate_r :: string
  confidence :: number

text \<open>What a handler does to the outside, in order.\<close>

datatype effect =
    Alert string
  | ConsoleError string
  | GetScreenshot
  | IdentifyTruck string
  | Print
  | TicketComplete
  | SetTimeout nat

definition resetConsole :: "Console \<Rightarrow> Console" where
  "resetConsole c =
     (let c1 = c\<lparr>mode := IDLE, detectedPlate := '''', matchedTicket := None, manualWeight := ''''\<rparr>
      in if useManualWeight c then c1\<lparr>manualWeight := ''0''\<rparr> else c1)"

text \<open>
  \<open>handleCapture\<close>, with the camera, the identifier (which never throws) and the ledger it
  reads.  The guard returns before any state is set; past the guard the \<^verbatim>\<open>try\<close> block runs
  and \<^verbatim>\<open>finally\<close> clears \<open>processing\<close>.  An empty screenshot is falsy, like \<^verbatim>\<open>null\<close>.
\<close>

definition handleCapture ::
  "Camera option \<Rightarrow> (string \<Rightarrow> RecognitionResult) \<Rightarrow> storage \<Rightarrow> Console \<Rightarrow> Console \<times> effect list" where
  "handleCapture webcamRef identifyTruck data c =
     (case webcamRef of
        None \<Rightarrow> (c, [])
      | Some cam \<Rightarrow>
          if \<not> isStable c \<and> \<not> useManualWeight c
          then (c, [Alert ''Scale is unstable. Please wait for the STABLE indicator.''])
          else
            (let c1 = c\<lparr>processing := True, mode := IDLE, matchedTicket := None,
                         detectedPlate := ''''\<rparr>
             in case getScreenshot cam of
                  None \<Rightarrow>
                    (c1\<lparr>processing := False\<rparr>,
                     [GetScreenshot, ConsoleError ''Camera capture failed'',
                      Alert ''Error processing transaction.''])
                | Some imageSrc \<Rightarrow>
                    if imageSrc = []
                    then (c1\<lparr>processing := False\<rparr>,
                          [GetScreenshot, ConsoleError ''Camera capture failed'',
                           Alert ''Error processing transaction.''])
                    else
                      (let recognition = identifyTruck imageSrc;
                           c2 = c1\<lparr>detectedPlate := licensePlate_r recognition\<rparr>;
                           openTicket = findOpenTicketByPlate (licensePlate_r recognition) data
                       in case openTicket of
                            Some t \<Rightarrow>
                              (c2\<lparr>mode := OUTBOUND, matchedTicket := Some t,
                                  processing := False\<rparr>,
                               [GetScreenshot, IdentifyTruck imageSrc])
                          | None \<Rightarrow>
                              (c2\<lparr>mode := INBOUND, processing := False\<rparr>,
                               [GetScreenshot, IdentifyTruck imageSrc]))))"

text \<open>The weight a confirm reads: the manual entry under the override, else the live weight.\<close>

definition confirm_weight :: "Console \<Rightarrow> number" where
  "confirm_weight c =
     (if useManualWeight c then or_zero (parseFloat (manualWeight c)) else currentWeight c)"

text \<open>
  \<open>processInbound\<close>, with the camera, the fresh id from \<^verbatim>\<open>crypto.randomUUID()\<close> and the time
  from \<^verbatim>\<open>Date.now()\<close>.  It returns the console, the ledger and the effects.
\<close>

definition processInbound ::
  "Camera option \<Rightarrow> string \<Rightarrow> nat \<Rightarrow> storage \<Rightarrow> Console \<Rightarrow> Console \<times> storage \<times> effect list" where
  "processInbound webcamRef uuid now data c =
     (case webcamRef of
        None \<Rightarrow> (c, data, [])
      | Some cam \<Rightarrow>
          (let imageSrc = getScreenshot cam;
               newTicket =
                 \<lparr>id_t = uuid,
                  licensePlate = or_text (detectedPlate c) ''UNKNOWN'',
                  companyName = None,
                  materialType = material c,
                  inboundWeight = confirm_weight c,
                  inboundTime = now,
                  inboundImage = (case imageSrc of None \<Rightarrow> '''' | Some i \<Rightarrow> i),
                  outboundWeight = None, outboundTime = None, outboundImage = None,
                  netWeight = None, ratePerKg = None, totalCost = None,
                  status = OPEN\<rparr>
           in (resetConsole c, saveTicket newTicket data, [GetScreenshot, TicketComplete])))"

text \<open>
  \<open>processOutbound\<close> up to the \<^verbatim>\<open>setTimeout\<close>; the callback it schedules for 500 ms later
  is \<open>processOutbound_later\<close>, which resets the console as the render that scheduled it
  would (the override flag of that render is its argument).
\<close>

definition processOutbound ::
  "Camera option \<Rightarrow> nat \<Rightarrow> storage \<Rightarrow> Console \<Rightarrow> Console \<times> storage \<times> effect list" where
  "processOutbound webcamRef now data c =
     (case matchedTicket c of
        None \<Rightarrow> (c, data, [])
      | Some mt \<Rightarrow>
          (case webcamRef of
             None \<Rightarrow> (c, data, [])
           | Some cam \<Rightarrow>
               (let outWeight = confirm_weight c;
                    net = Math_abs (sub (inboundWeight mt) outWeight);
                    rate = Fin (1 / 4);
                    cost = mul net rate;
                    updatedTicket = mt
                      \<lparr>outboundWeight := Some outWeight,
                       outboundTime := Some now,
                       outboundImage :=
                         Some (case getScreenshot cam of None \<Rightarrow> '''' | Some i \<Rightarrow> i),
                       netWeight := Some net,
                       ratePerKg := Some rate,
                       totalCost := Some cost,
                       status := CLOSED\<rparr>
                in (c\<lparr>lastPrintedTicket := Some updatedTicket\<rparr>,
                    saveTicket updatedTicket data,
                    [GetScreenshot, SetTimeout 500]))))"

definition processOutbound_later :: "bool \<Rightarrow> Console \<Rightarrow> Console \<times> effect list" where
  "processOutbound_later manual c =
     (resetConsole (c\<lparr>useManualWeight := manual\<rparr>)\<lparr>useManualWeight := useManualWeight c\<rparr>,
      [Print, TicketComplete])"

section \<open>The stability effect and the running console\<close>

text \<open>
  The console together with what it acts on: the ledger, and the pending timers of
  \<^verbatim>\<open>window.setTimeout\<close> that the stability effect started, each with its id and the time
  at which it is due.  Time is counted in milliseconds.  \<open>hasCleanup\<close> tells whether the
  last run of the effect returned a cleanup function.
\<close>

record Sys =
  console :: Console
  ledger :: storage
  timers :: "(nat \<times> nat) list"
  clock :: nat
  nextTimer :: nat
  hasCleanup :: bool

definition clearTimeout :: "nat \<Rightarrow> Sys \<Rightarrow> Sys" where
  "clearTimeout i s = s\<lparr>timers := filter (\<lambda>t. fst t \<noteq> i) (timers s)\<rparr>"

definition setTimeout :: "nat \<Rightarrow> Sys \<Rightarrow> nat \<times> Sys" where
  "setTimeout delay s =
     (nextTimer s,
      s\<lparr>timers := timers s @ [(nextTimer s, clock s + delay)], nextTimer := nextTimer s + 1\<rparr>)"

text \<open>
  \<^verbatim>\<open>if (stabilityTimeoutRef.current) window.clearTimeout(stabilityTimeoutRef.current)\<close>:
  \<^verbatim>\<open>null\<close> and the id 0 are falsy.
\<close>

definition clear_ref :: "Sys \<Rightarrow> Sys" where
  "clear_ref s =
     (case stabilityTimeoutRef (console s) of
        None \<Rightarrow> s
      | Some i \<Rightarrow> if i \<noteq> 0 then clearTimeout i s else s)"

text \<open>The body of the effect on \<^verbatim>\<open>[currentWeight, useManualWeight]\<close>, and its cleanup.\<close>

definition stability_effect :: "Sys \<Rightarrow> Sys" where
  "stability_effect s =
     (if useManualWeight (console s)
      then s\<lparr>console := (console s)\<lparr>isStable := True\<rparr>, hasCleanup := False\<rparr>
      else
        (let s1 = s\<lparr>console := (console s)\<lparr>isStable := False\<rparr>\<rparr>;
             s2 = clear_ref s1;
             (i, s3) = setTimeout 800 s2
         in s3\<lparr>console := (console s3)\<lparr>stabilityTimeoutRef := Some i\<rparr>, hasCleanup := True\<rparr>))"

definition stability_cleanup :: "Sys \<Rightarrow> Sys" where
  "stability_cleanup s = clear_ref s"

text \<open>
  When a dependency has changed, the cleanup of the previous run (if it returned one) runs,
  then the effect.  The model takes the state change and the effect as one step.
\<close>

definition rerun_effect :: "Sys \<Rightarrow> Sys" where
  "rerun_effect s = stability_effect (if hasCleanup s then stability_cleanup s else s)"

definition setCurrentWeight :: "number \<Rightarrow> Sys \<Rightarrow> Sys" where
  "setCurrentWeight w s =
     (if w = currentWeight (console s) then s
      else rerun_effect (s\<lparr>console := (console s)\<lparr>currentWeight := w\<rparr>\<rparr>))"

text \<open>The checkbox: \<^verbatim>\<open>setUseManualWeight(checked); if (checked) setManualWeight('0')\<close>.\<close>

definition setUseManualWeight :: "bool \<Rightarrow> Sys \<Rightarrow> Sys" where
  "setUseManualWeight checked s =
     (let c1 = (console s)\<lparr>useManualWeight := checked\<rparr>;
          c2 = (if checked then c1\<lparr>manualWeight := ''0''\<rparr> else c1);
          s1 = s\<lparr>console := c2\<rparr>
      in if checked = useManualWeight (console s) then s1 else rerun_effect s1)"

text \<open>
  Time passes: every timer that is due by then fires and is gone; the callback of a
  stability timer is \<^verbatim>\<open>setIsStable(true)\<close>.
\<close>

definition advance :: "nat \<Rightarrow> Sys \<Rightarrow> Sys" where
  "advance d s =
     (let t = clock s + d;
          due = filter (\<lambda>x. snd x \<le> t) (timers s);
          s1 = s\<lparr>clock := t, timers := filter (\<lambda>x. \<not> snd x \<le> t) (timers s)\<rparr>
      in if due = [] then s1 else s1\<lparr>console := (console s1)\<lparr>isStable := True\<rparr>\<rparr>)"

text \<open>The component as first rendered, and after its first effect run on the given ledger.\<close>

definition initial_console :: Console where
  "initial_console =
     \<lparr>currentWeight = Fin 0, isStable = False, isConnected = False, isSimulating = False,
      processing = False, detectedPlate = '''', mode = IDLE, matchedTicket = None,
      material = ''Mixed Metal'', lastPrintedTicket = None, manualWeight = '''',
      useManualWeight = False, stabilityTimeoutRef = None\<rparr>"

definition mount :: "storage \<Rightarrow> Sys" where
  "mount data =
     stability_effect
       \<lparr>console = initial_console, ledger = data, timers = [], clock = 0, nextTimer = 1,
        hasCleanup = False\<rparr>"

text \<open>
  What can happen to a mounted console: a weight arrives (from the scale or the
  simulation), the operator toggles the override, types a manual weight, a plate (stored
  upper-cased) or a material, asks for a capture, confirms an inbound or outbound draft,
  cancels, the print callback of an outbound confirm runs, or time passes.  A confirm
  reads the clock for \<^verbatim>\<open>Date.now()\<close>.
\<close>

datatype event =
    Weight number
  | ManualToggle bool
  | ManualEntry string
  | PlateEntry string
  | MaterialEntry string
  | Capture "Camera option" "string \<Rightarrow> RecognitionResult"
  | ConfirmInbound "Camera option" string
  | ConfirmOutbound "Camera option"
  | Cancel
  | PrintDone bool
  | Elapse nat

fun step :: "event \<Rightarrow> Sys \<Rightarrow> Sys" where
  "step (Weight w) s = setCurrentWeight w s"
| "step (ManualToggle b) s = setUseManualWeight b s"
| "step (ManualEntry v) s = s\<lparr>console := (console s)\<lparr>manualWeight := v\<rparr>\<rparr>"
| "step (PlateEntry v) s = s\<lparr>console := (console s)\<lparr>detectedPlate := v\<rparr>\<rparr>"
| "step (MaterialEntry v) s = s\<lparr>console := (console s)\<lparr>material := v\<rparr>\<rparr>"
| "step (Capture cam identifyTruck) s =
     s\<lparr>console := fst (handleCapture cam identifyTruck (ledger s) (console s))\<rparr>"
| "step (ConfirmInbound cam uuid) s =
     (let (c, data, fx) = processInbound cam uuid (clock s) (ledger s) (console s)
      in s\<lparr>console := c, ledger := data\<rparr>)"
| "step (ConfirmOutbound cam) s =
     (let (c, data, fx) = processOutbound cam (clock s) (ledger s) (console s)
      in s\<lparr>console := c, ledger := data\<rparr>)"
| "step Cancel s = s\<lparr>console := resetConsole (console s)\<rparr>"
| "step (PrintDone manual) s = s\<lparr>console := fst (processOutbound_later manual (console s))\<rparr>"
| "step (Elapse d) s = advance d s"

fun run :: "event list \<Rightarrow> Sys \<Rightarrow> Sys" where
  "run [] s = s"
| "run (e # es) s = run es (step e s)"

text \<open>
  The invariant of the data model: each outbound and each financial field of a ticket is
  present exactly when the ticket is CLOSED.
\<close>

definition ticket_ok :: "Ticket \<Rightarrow> bool" where
  "ticket_ok t \<longleftrightarrow>
     (outboundWeight t \<noteq> None) = (status t = CLOSED) \<and>
     (outboundTime t \<noteq> None) = (status t = CLOSED) \<and>
     (outboundImage t \<noteq> None) = (status t = CLOSED) \<and>
     (netWeight t \<noteq> None) = (status t = CLOSED) \<and>
     (ratePerKg t \<noteq> None) = (status t = CLOSED) \<and>
     (totalCost t \<noteq> None) = (status t = CLOSED)"

definition ledger_ok :: "storage \<Rightarrow> bool" where
  "ledger_ok data \<longleftrightarrow> list_all ticket_ok (getTickets data)"

text \<open>
  What holds of the timers in every state the console reaches: ids are positive and below
  the next id, at most one timer is pending, it is the one the ref names and its cleanup
  is registered (\<open>timers_pre\<close>, which also holds between a state change and the effect
  run); and after the effect has run, under the override none is pending and the state is
  STABLE, and otherwise a cleanup is registered (\<open>timers_ok\<close>).
\<close>

definition timers_pre :: "Sys \<Rightarrow> bool" where
  "timers_pre s \<longleftrightarrow>
     0 < nextTimer s \<and>
     list_all (\<lambda>t. 0 < fst t \<and> fst t < nextTimer s) (timers s) \<and>
     (case timers s of
        [] \<Rightarrow> True
      | t # ts \<Rightarrow> ts = [] \<and> stabilityTimeoutRef (console s) = Some (fst t) \<and> hasCleanup s)"

definition timers_ok :: "Sys \<Rightarrow> bool" where
  "timers_ok s \<longleftrightarrow>
     timers_pre s \<and>
     (if useManualWeight (console s)
      then isStable (console s) \<and> timers s = []
      else hasCleanup s)"

text \<open>
  A run of events in which the reading does not change: every weight that arrives is the
  current one and the override is not toggled.
\<close>

fun no_change :: "event list \<Rightarrow> Sys \<Rightarrow> bool" where
  "no_change [] s = True"
| "no_change (e # es) s =
     ((case e of
         Weight w \<Rightarrow> w = currentWeight (console s)
       | ManualToggle b \<Rightarrow> b = useManualWeight (console s)
       | _ \<Rightarrow> True) \<and>
      no_change es (step e s))"

text \<open>Two states that agree on everything the detector reads or writes.\<close>

definition same_detector :: "Sys \<Rightarrow> Sys \<Rightarrow> bool" where
  "same_detector s s' \<longleftrightarrow>
     isStable (console s') = isStable (console s) \<and>
     useManualWeight (console s') = useManualWeight (console s) \<and>
     stabilityTimeoutRef (console s') = stabilityTimeoutRef (console s) \<and>
     currentWeight (console s') = currentWeight (console s) \<and>
     timers s' = timers s \<and> clock s' = clock s \<and> nextTimer s' = nextTimer s \<and>
     hasCleanup s' = hasCleanup s"

text \<open>
  During a quiet period that ends at time \<open>T\<close>, without the override: the state is STABLE
  once the clock has reached \<open>T\<close>, and before that it is MOTION with one timer, due at \<open>T\<close>.
\<close>

definition quiet_inv :: "nat \<Rightarrow> Sys \<Rightarrow> bool" where
  "quiet_inv T s \<longleftrightarrow>
     \<not> useManualWeight (console s) \<and>
     (if isStable (console s) then T \<le> clock s
      else clock s < T \<and> map snd (timers s) = [T])"

text \<open>Concrete consoles, a camera, an identifier and one visit of a truck, for evaluation.\<close>

definition outbound_console :: Console where
  "outbound_console =
     initial_console\<lparr>currentWeight := Fin 15000, isStable := True, mode := OUTBOUND,
       detectedPlate := ''ABC123'',
       matchedTicket := Some (sample_ticket ''1'' ''ABC123'' OPEN)\<rparr>"

definition manual_console :: "string \<Rightarrow> Console" where
  "manual_console v =
     initial_console\<lparr>isStable := True, useManualWeight := True, manualWeight := v\<rparr>"

definition moving_console :: Console where
  "moving_console = initial_console\<lparr>currentWeight := Fin 15000, isStable := False\<rparr>"

definition sample_camera :: Camera where
  "sample_camera = \<lparr>getScreenshot = Some ''jpeg''\<rparr>"

definition sample_identify :: "string \<Rightarrow> RecognitionResult" where
  "sample_identify img = \<lparr>licensePlate_r = ''ABC123'', confidence = Fin 1\<rparr>"

definition sample_visit :: "event list" where
  "sample_visit =
     [Weight (Fin 20000), Elapse 900, Capture (Some sample_camera) sample_identify,
      ConfirmInbound (Some sample_camera) ''id-1'',
      Weight (Fin 15000), Elapse 900, Capture (Some sample_camera) sample_identify,
      ConfirmOutbound (Some sample_camera)]"



section \<open>Ledger lookup\<close>

text \<open>
  Claim C2.  For every stored collection and every plate, \<open>findOpenTicketByPlate\<close> returns
  nothing when the plate is the sentinel \<^verbatim>\<open>UNKNOWN\<close>, whatever is stored, and nothing when no
  OPEN ticket carries exactly that plate; otherwise it returns the OPEN ticket with that
  plate that comes first in stored order, also when several OPEN tickets share the plate.
\<close>

theorem findOpenTicketByPlate_spec:
  "(plate = ''UNKNOWN'' \<longrightarrow> findOpenTicketByPlate plate data = None) \<and>
   ((\<forall>t \<in> set (getTickets data). \<not> open_with_plate plate t) \<longrightarrow>
      findOpenTicketByPlate plate data = None) \<and>
   (plate \<noteq> ''UNKNOWN'' \<and> (\<exists>t \<in> set (getTickets data). open_with_plate plate t) \<longrightarrow>
      (\<exists>i < length (getTickets data).
         findOpenTicketByPlate plate data = Some (getTickets data ! i) \<and>
         open_with_plate plate (getTickets data ! i) \<and>
         (\<forall>j < i. \<not> open_with_plate plate (getTickets data ! j))))"
proof (intro conjI impI)
  assume "plate = ''UNKNOWN''"
  then show "findOpenTicketByPlate plate data = None"
    by (simp add: findOpenTicketByPlate_def)
next
  assume "\<forall>t \<in> set (getTickets data). \<not> open_with_plate plate t"
  then have "find (open_with_plate plate) (getTickets data) = None"
    by (simp add: find_None_iff)
  then show "findOpenTicketByPlate plate data = None"
    by (simp add: findOpenTicketByPlate_def open_with_plate_def [abs_def])
next
  let ?ts = "getTickets data"
  assume a: "plate \<noteq> ''UNKNOWN'' \<and> (\<exists>t \<in> set ?ts. open_with_plate plate t)"
  then obtain x where x: "find (open_with_plate plate) ?ts = Some x"
    by (cases "find (open_with_plate plate) ?ts") (auto simp: find_None_iff)
  then obtain i where i: "i < length ?ts" "x = ?ts ! i"
      "open_with_plate plate (?ts ! i)" "\<forall>j<i. \<not> open_with_plate plate (?ts ! j)"
    by (auto simp: find_Some_iff)
  have "findOpenTicketByPlate plate data = Some x"
    using a x by (simp add: findOpenTicketByPlate_def open_with_plate_def [abs_def])
  with i show "\<exists>i < length ?ts.
         findOpenTicketByPlate plate data = Some (?ts ! i) \<and>
         open_with_plate plate (?ts ! i) \<and>
         (\<forall>j < i. \<not> open_with_plate plate (?ts ! j))"
    by blast
qed

text \<open>
  The three cases at concrete ledgers: the sentinel with an OPEN ticket whose plate is the
  sentinel itself, a plate nobody carries, and a plate shared by a CLOSED and two OPEN
  tickets, where the first OPEN one is returned.
\<close>

theorem findOpenTicketByPlate_spec_witness:
  "findOpenTicketByPlate ''UNKNOWN'' (Some [sample_ticket ''1'' ''UNKNOWN'' OPEN]) = None \<and>
   findOpenTicketByPlate ''XYZ999'' (Some [sample_ticket ''1'' ''ABC123'' OPEN]) = None \<and>
   findOpenTicketByPlate ''ABC123''
     (Some [sample_ticket ''1'' ''ABC123'' CLOSED, sample_ticket ''2'' ''ABC123'' OPEN,
            sample_ticket ''3'' ''ABC123'' OPEN])
     = Some (sample_ticket ''2'' ''ABC123'' OPEN)"
proof -
  let ?ts = "[sample_ticket ''1'' ''ABC123'' CLOSED, sample_ticket ''2'' ''ABC123'' OPEN,
              sample_ticket ''3'' ''ABC123'' OPEN]"
  have 1: "findOpenTicketByPlate ''UNKNOWN'' (Some [sample_ticket ''1'' ''UNKNOWN'' OPEN]) = None"
    using findOpenTicketByPlate_spec [of "''UNKNOWN''" "Some [sample_ticket ''1'' ''UNKNOWN'' OPEN]"]
    by simp
  have 2: "findOpenTicketByPlate ''XYZ999'' (Some [sample_ticket ''1'' ''ABC123'' OPEN]) = None"
    using findOpenTicketByPlate_spec [of "''XYZ999''" "Some [sample_ticket ''1'' ''ABC123'' OPEN]"]
    by (simp add: getTickets_def open_with_plate_def sample_ticket_def)
  have "\<exists>i < length ?ts. findOpenTicketByPlate ''ABC123'' (Some ?ts) = Some (?ts ! i) \<and>
          open_with_plate ''ABC123'' (?ts ! i) \<and> (\<forall>j < i. \<not> open_with_plate ''ABC123'' (?ts ! j))"
    using findOpenTicketByPlate_spec [of "''ABC123''" "Some ?ts"]
    by (simp add: getTickets_def open_with_plate_def sample_ticket_def)
  then obtain i where i: "i < length ?ts" "findOpenTicketByPlate ''ABC123'' (Some ?ts) = Some (?ts ! i)"
     "open_with_plate ''ABC123'' (?ts ! i)" "\<forall>j < i. \<not> open_with_plate ''ABC123'' (?ts ! j)"
    by blast
  have "i = 1"
  proof -
    from i(1) have "i < 3" by simp
    then consider "i = 0" | "i = 1" | "i = 2" by linarith
    then show ?thesis
    proof cases
      case 1 with i(3) show ?thesis by (simp add: open_with_plate_def sample_ticket_def)
    next
      case 2 then show ?thesis .
    next
      case 3 with i(4) [rule_format, of 1] have "\<not> open_with_plate ''ABC123'' (?ts ! 1)" by simp
      then show ?thesis by (simp add: open_with_plate_def sample_ticket_def)
    qed
  qed
  with i(2) have 3: "findOpenTicketByPlate ''ABC123'' (Some ?ts) = Some (sample_ticket ''2'' ''ABC123'' OPEN)"
    by simp
  from 1 2 3 show ?thesis by blast
qed

section \<open>Ledger upsert\<close>

lemma findIndex_None: "findIndex P xs = None \<longleftrightarrow> (\<forall>x\<in>set xs. \<not> P x)"
  by (induction xs) auto

lemma findIndex_Some:
  "findIndex P xs = Some i \<longleftrightarrow> i < length xs \<and> P (xs ! i) \<and> (\<forall>j<i. \<not> P (xs ! j))"
proof (induction xs arbitrary: i)
  case Nil
  then show ?case by simp
next
  case (Cons x xs)
  show ?case
  proof (cases "P x")
    case True
    then show ?thesis by (cases i) auto
  next
    case False
    show ?thesis
    proof (cases i)
      case 0
      with False show ?thesis by auto
    next
      case (Suc k)
      with False Cons.IH [of k] show ?thesis
        by (auto simp: less_Suc_eq_0_disj)
    qed
  qed
qed

lemma findIndex_append_new:
  "findIndex P xs = None \<Longrightarrow> P t \<Longrightarrow> findIndex P (xs @ [t]) = Some (length xs)"
  by (induction xs) (auto split: if_splits)

lemma findIndex_update_same:
  "findIndex P xs = Some i \<Longrightarrow> P t \<Longrightarrow> findIndex P (xs[i := t]) = Some i"
  by (induction xs arbitrary: i) (auto split: if_splits)

lemma filter_update_other:
  "i < length xs \<Longrightarrow> \<not> Q (xs ! i) \<Longrightarrow> \<not> Q t \<Longrightarrow> filter Q (xs[i := t]) = filter Q xs"
  by (induction xs arbitrary: i) (auto split: nat.splits)

lemma count_update_same:
  "i < length xs \<Longrightarrow> Q (xs ! i) \<Longrightarrow> Q t \<Longrightarrow>
   length (filter Q (xs[i := t])) = length (filter Q xs)"
  by (induction xs arbitrary: i) (auto split: nat.splits)

lemma filter_singleton:
  assumes "length (filter Q xs) = 1" and "x \<in> set xs" and "Q x"
  shows "filter Q xs = [x]"
proof -
  from assms(1) obtain y where y: "filter Q xs = [y]"
    by (cases "filter Q xs") auto
  from assms(2,3) have "x \<in> set (filter Q xs)" by simp
  with y show ?thesis by simp
qed

lemma count_pos:
  "i < length xs \<Longrightarrow> Q (xs ! i) \<Longrightarrow> 0 < length (filter Q xs)"
  by (metis filter_empty_conv length_greater_0_conv nth_mem)

lemma saveTicket_unfold:
  "getTickets (saveTicket t data) =
     (case findIndex (\<lambda>x. id_t x = id_t t) (getTickets data) of
        Some i \<Rightarrow> (getTickets data)[i := t]
      | None \<Rightarrow> getTickets data @ [t])"
  by (cases data) (simp_all add: saveTicket_def getTickets_def Let_def split: option.splits)

lemma saveTicket_twice:
  assumes "id_t t' = id_t t"
  shows "getTickets (saveTicket t' (saveTicket t data)) = getTickets (saveTicket t' data)"
proof (cases "findIndex (\<lambda>x. id_t x = id_t t) (getTickets data)")
  case None
  then have "findIndex (\<lambda>x. id_t x = id_t t) (getTickets data @ [t]) = Some (length (getTickets data))"
    by (simp add: findIndex_append_new)
  with None assms show ?thesis
    by (simp add: saveTicket_unfold)
next
  case (Some i)
  then have "findIndex (\<lambda>x. id_t x = id_t t) ((getTickets data)[i := t]) = Some i"
    by (simp add: findIndex_update_same)
  with Some assms show ?thesis
    by (simp add: saveTicket_unfold)
qed

text \<open>
  Saving keeps the ids of a collection pairwise distinct, so a ledger that only
  \<open>saveTicket\<close> has written, starting from the empty store, holds every id at most once.
\<close>

lemma saveTicket_distinct:
  assumes "distinct (map id_t (getTickets data))"
  shows "distinct (map id_t (getTickets (saveTicket t data)))"
proof (cases "findIndex (\<lambda>x. id_t x = id_t t) (getTickets data)")
  case None
  then have "id_t t \<notin> set (map id_t (getTickets data))"
    by (auto simp: findIndex_None)
  with None assms show ?thesis by (simp add: saveTicket_unfold)
next
  case (Some i)
  then have i: "i < length (getTickets data)" "id_t (getTickets data ! i) = id_t t"
    by (simp_all add: findIndex_Some)
  then have "map id_t ((getTickets data)[i := t]) = map id_t (getTickets data)"
    by (simp add: map_update list_update_same_conv)
  with Some assms show ?thesis by (simp add: saveTicket_unfold)
qed

lemma distinct_ids_once:
  "distinct (map id_t ts) \<Longrightarrow> length (with_id k ts) \<le> 1"
  by (induction ts) (auto simp: with_id_def filter_empty_conv image_iff)

text \<open>
  Claim C3, as amended.  Let the collection hold at most one record with the id of the ticket
  (every collection with pairwise distinct ids does).  Saving the ticket and then saving a
  ticket with the same id and other fields leaves exactly one record with that id, the
  second ticket; the other records keep their relative order; and the record sits where
  the first record with that id was, or at the end when there was none.
\<close>

theorem saveTicket_upsert:
  assumes ids: "id_t t' = id_t t"
    and once: "length (with_id (id_t t) (getTickets data)) \<le> 1"
  shows "with_id (id_t t) (getTickets (saveTicket t' (saveTicket t data))) = [t'] \<and>
         without_id (id_t t) (getTickets (saveTicket t' (saveTicket t data)))
           = without_id (id_t t) (getTickets data) \<and>
         getTickets (saveTicket t' (saveTicket t data))
           = (case findIndex (\<lambda>x. id_t x = id_t t) (getTickets data) of
                Some i \<Rightarrow> (getTickets data)[i := t']
              | None \<Rightarrow> getTickets data @ [t'])"
proof -
  let ?ts = "getTickets data"
  let ?same = "\<lambda>x. id_t x = id_t t"
  let ?r = "getTickets (saveTicket t' (saveTicket t data))"
  have "?r = getTickets (saveTicket t' data)"
    using ids by (rule saveTicket_twice)
  also have "\<dots> = (case findIndex ?same ?ts of Some i \<Rightarrow> ?ts[i := t'] | None \<Rightarrow> ?ts @ [t'])"
    using ids by (simp add: saveTicket_unfold)
  finally have r: "?r = (case findIndex ?same ?ts of Some i \<Rightarrow> ?ts[i := t'] | None \<Rightarrow> ?ts @ [t'])" .
  show ?thesis
  proof (cases "findIndex ?same ?ts")
    case None
    then have "\<forall>x \<in> set ?ts. \<not> ?same x" by (simp add: findIndex_None)
    then have "filter ?same ?ts = []" "filter (\<lambda>x. \<not> ?same x) ?ts = ?ts" by simp_all
    with None r ids show ?thesis by (simp add: with_id_def without_id_def)
  next
    case (Some i)
    then have i: "i < length ?ts" "?same (?ts ! i)" by (simp_all add: findIndex_Some)
    have "length (filter ?same (?ts[i := t'])) = length (filter ?same ?ts)"
      using i ids by (simp add: count_update_same)
    moreover have "0 < length (filter ?same ?ts)" using i by (rule count_pos)
    moreover have "length (filter ?same ?ts) \<le> 1"
      using once by (simp add: with_id_def)
    ultimately have "length (filter ?same (?ts[i := t'])) = 1"
      by linarith
    moreover have "t' \<in> set (?ts[i := t'])" using i by (simp add: set_update_memI)
    ultimately have one: "filter ?same (?ts[i := t']) = [t']" using ids by (rule filter_singleton)
    have "filter (\<lambda>x. \<not> ?same x) (?ts[i := t']) = filter (\<lambda>x. \<not> ?same x) ?ts"
      using i ids by (simp add: filter_update_other)
    with one Some r show ?thesis by (simp add: with_id_def without_id_def)
  qed
qed

text \<open>
  Two concrete round trips: the id is new (the record is appended, then replaced at the
  end), and the id is already stored at the front (replaced in place both times).
\<close>

theorem saveTicket_upsert_witness:
  "getTickets (saveTicket (sample_ticket ''2'' ''XYZ999'' CLOSED)
     (saveTicket (sample_ticket ''2'' ''ABC123'' OPEN)
        (Some [sample_ticket ''1'' ''QRS456'' OPEN, sample_ticket ''3'' ''TUV789'' OPEN])))
   = [sample_ticket ''1'' ''QRS456'' OPEN, sample_ticket ''3'' ''TUV789'' OPEN,
      sample_ticket ''2'' ''XYZ999'' CLOSED] \<and>
   getTickets (saveTicket (sample_ticket ''1'' ''XYZ999'' CLOSED)
     (saveTicket (sample_ticket ''1'' ''ABC123'' OPEN)
        (Some [sample_ticket ''1'' ''QRS456'' OPEN, sample_ticket ''3'' ''TUV789'' OPEN])))
   = [sample_ticket ''1'' ''XYZ999'' CLOSED, sample_ticket ''3'' ''TUV789'' OPEN]"
  using saveTicket_upsert [of "sample_ticket ''2'' ''XYZ999'' CLOSED" "sample_ticket ''2'' ''ABC123'' OPEN"
      "Some [sample_ticket ''1'' ''QRS456'' OPEN, sample_ticket ''3'' ''TUV789'' OPEN]"]
    saveTicket_upsert [of "sample_ticket ''1'' ''XYZ999'' CLOSED" "sample_ticket ''1'' ''ABC123'' OPEN"
      "Some [sample_ticket ''1'' ''QRS456'' OPEN, sample_ticket ''3'' ''TUV789'' OPEN]"]
  by (simp add: with_id_def getTickets_def sample_ticket_def)

text \<open>
  Without the restriction the round trip can leave two records with the id: \<open>findIndex\<close>
  stops at the first record with the id, so a second stored record with the same id is
  never touched.
\<close>

theorem saveTicket_upsert_counterexample:
  "with_id ''1'' (getTickets (saveTicket (sample_ticket ''1'' ''XYZ999'' CLOSED)
     (saveTicket (sample_ticket ''1'' ''ABC123'' OPEN)
        (Some [sample_ticket ''1'' ''QRS456'' OPEN, sample_ticket ''1'' ''TUV789'' OPEN]))))
   = [sample_ticket ''1'' ''XYZ999'' CLOSED, sample_ticket ''1'' ''TUV789'' OPEN]"
  by (simp add: with_id_def saveTicket_def getTickets_def sample_ticket_def)

section \<open>Rounding to a double\<close>

lemma ilog2_small: "n < 2 \<Longrightarrow> ilog2 n = 0"
  by (simp add: ilog2.simps)

lemma ilog2_step: "2 \<le> n \<Longrightarrow> ilog2 n = Suc (ilog2 (n div 2))"
  by (subst ilog2.simps) simp

lemma ilog2_bounds: "0 < n \<Longrightarrow> 2 ^ ilog2 n \<le> n \<and> n < 2 ^ Suc (ilog2 n)"
proof (induction n rule: ilog2.induct)
  case (1 n)
  show ?case
  proof (cases "n < 2")
    case True
    with "1.prems" have "n = 1" by simp
    then show ?thesis by (simp add: ilog2_small)
  next
    case False
    then have "0 < n div 2" by simp
    with "1.IH" False have ih: "2 ^ ilog2 (n div 2) \<le> n div 2" "n div 2 < 2 ^ Suc (ilog2 (n div 2))"
      by simp_all
    from False have e: "ilog2 n = Suc (ilog2 (n div 2))" by (simp add: ilog2_step)
    have "2 * 2 ^ ilog2 (n div 2) \<le> 2 * (n div 2)" using ih(1) by simp
    also have "\<dots> \<le> n" by simp
    finally have lo: "2 ^ ilog2 n \<le> n" by (simp add: e)
    have "n < 2 * (n div 2) + 2" by presburger
    also have "\<dots> \<le> 2 * 2 ^ Suc (ilog2 (n div 2))" using ih(2) by simp
    finally have "n < 2 ^ Suc (ilog2 n)" by (simp add: e)
    with lo show ?thesis by simp
  qed
qed

lemma round_half_even_int: "round_half_even (of_int z) = z"
  by (simp add: round_half_even_def)

lemma nearest_double_nat:
  assumes "n < 2 ^ 53"
  shows "nearest_double (of_nat n) = of_nat n"
proof (cases "n = 0")
  case True
  then show ?thesis by (simp add: nearest_double_def)
next
  case False
  then have pos: "0 < n" by simp
  define e where "e = ilog2 n"
  from ilog2_bounds [OF pos] have lo: "2 ^ e \<le> n" by (simp add: e_def)
  from lo assms have "(2::nat) ^ e < 2 ^ 53" by (rule le_less_trans)
  moreover have "(1::nat) < 2" by simp
  ultimately have e53: "e < 53" by (rule power_less_imp_less_exp [rotated])
  have b: "binade (of_nat n) = int e"
    using pos by (simp add: binade_def e_def)
  have u: "pow2 (int e - 52) = 1 / 2 ^ (52 - e)"
  proof (cases "e = 52")
    case True
    then show ?thesis by (simp add: pow2_def)
  next
    case False
    with e53 have "e < 52" by simp
    then have "nat (52 - int e) = 52 - e" by simp
    with \<open>e < 52\<close> show ?thesis by (simp add: pow2_def)
  qed
  have q: "(of_nat n :: rat) / (1 / 2 ^ (52 - e)) = of_int (int n * 2 ^ (52 - e))"
    by simp
  have "nearest_double (of_nat n) = of_int (round_half_even (of_int (int n * 2 ^ (52 - e)))) * (1 / 2 ^ (52 - e))"
    using False by (simp only: nearest_double_def Let_def b u q of_nat_eq_0_iff if_False)
  also have "\<dots> = of_nat n"
    by (simp only: round_half_even_int) simp
  finally show ?thesis .
qed

lemma to_double_nat:
  assumes "n < 2 ^ 53"
  shows "to_double (of_nat n) = Fin (of_nat n)"
proof -
  have "(2::nat) ^ 53 \<le> 2 ^ 1024 - 2 ^ 970" by simp
  with assms have "n < 2 ^ 1024 - 2 ^ 970" by simp
  then have "(of_nat n :: rat) < of_nat (2 ^ 1024 - 2 ^ 970)"
    by (simp only: of_nat_less_iff)
  then have "\<not> (2 ^ 1024 - 2 ^ 970 \<le> \<bar>of_nat n :: rat\<bar>)"
    by (simp add: of_nat_diff)
  moreover have "sgn (of_nat n :: rat) * of_nat n = of_nat n"
    by (cases "n = 0") simp_all
  ultimately show ?thesis
    using assms by (simp add: to_double_def nearest_double_nat)
qed

lemma to_double_not_NaN: "to_double v \<noteq> NaN"
  by (simp add: to_double_def)

lemma to_double_nonneg:
  assumes "0 \<le> v"
  shows "(v < 2 ^ 1024 - 2 ^ 970 \<longrightarrow> to_double v = Fin (nearest_double v)) \<and>
         (2 ^ 1024 - 2 ^ 970 \<le> v \<longrightarrow> to_double v = PosInf)"
proof (cases "v = 0")
  case True
  then show ?thesis by (simp add: to_double_def nearest_double_def)
next
  case False
  with assms have "0 < v" by simp
  then show ?thesis by (simp add: to_double_def)
qed

lemma to_double_12400: "to_double 12400 = Fin 12400"
  using to_double_nat [of 12400] by simp

lemma to_double_0: "to_double 0 = Fin 0"
  using to_double_nat [of 0] by simp


section \<open>Stream framing\<close>

lemma split_lines_not_Nil: "split_lines x \<noteq> []"
  by (induction x rule: split_lines.induct) (auto split: list.splits)

lemma split_lines_no_terminator:
  "no_terminator p \<Longrightarrow> split_lines p = [p]"
  by (induction p) (auto simp: no_terminator_def)

lemma split_lines_prefix:
  "no_terminator p \<Longrightarrow> is_terminator c \<Longrightarrow>
   split_lines (p @ c # y) = p # split_lines (dropWhile is_terminator y)"
  by (induction p) (auto simp: no_terminator_def)

lemma drop_terminators:
  "lines_of (dropWhile is_terminator y) = lines_of y \<and>
   rest_of (dropWhile is_terminator y) = rest_of y"
proof (cases y)
  case Nil
  then show ?thesis by simp
next
  case (Cons c cs)
  then show ?thesis
    by (simp add: lines_of_def rest_of_def split_lines_not_Nil)
qed

lemma frames_split:
  "no_terminator cur \<Longrightarrow> frames cur x = (lines_of (cur @ x), rest_of (cur @ x))"
proof (induction x arbitrary: cur)
  case Nil
  then show ?case by (simp add: lines_of_def rest_of_def split_lines_no_terminator)
next
  case (Cons c cs)
  show ?case
  proof (cases "is_terminator c")
    case True
    have "frames [] cs = (lines_of cs, rest_of cs)"
      using Cons.IH [of "[]"] by (simp add: no_terminator_def)
    moreover have "split_lines (cur @ c # cs) = cur # split_lines (dropWhile is_terminator cs)"
      using Cons.prems True by (rule split_lines_prefix)
    ultimately show ?thesis
      using True drop_terminators [of cs]
      by (simp add: lines_of_def rest_of_def split_lines_not_Nil)
  next
    case False
    with Cons.prems have "no_terminator (cur @ [c])" by (simp add: no_terminator_def)
    from Cons.IH [OF this] False show ?thesis by simp
  qed
qed

lemma frames_append:
  "frames cur (a @ b) =
     (fst (frames cur a) @ fst (frames (snd (frames cur a)) b), snd (frames (snd (frames cur a)) b))"
  by (induction a arbitrary: cur) (auto simp: split_beta)

lemma no_terminator_simps:
  "no_terminator []" "no_terminator (cur @ [c]) \<longleftrightarrow> no_terminator cur \<and> \<not> is_terminator c"
  by (auto simp: no_terminator_def)

lemma frames_rest_no_terminator:
  "no_terminator cur \<Longrightarrow> no_terminator (snd (frames cur x))"
proof (induction x arbitrary: cur)
  case Nil
  then show ?case by simp
next
  case (Cons c cs)
  show ?case
  proof (cases "is_terminator c")
    case True
    with Cons.IH [of "[]"] show ?thesis by (simp add: split_beta no_terminator_simps)
  next
    case False
    with Cons.IH [of "cur @ [c]"] Cons.prems show ?thesis by (simp add: no_terminator_simps)
  qed
qed

lemma line_weights_Nil: "line_weights [] = []"
  by (simp add: line_weights_def trim_def)

lemma concat_line_weights_filter:
  "concat (map line_weights (filter (\<lambda>l. l \<noteq> []) ls)) = concat (map line_weights ls)"
  by (induction ls) (auto simp: line_weights_Nil)

lemma processData_frames:
  assumes "no_terminator (buffer svc)"
  shows "processData chunk svc =
     (concat (map line_weights (fst (frames (buffer svc) chunk))),
      svc\<lparr>buffer := snd (frames (buffer svc) chunk)\<rparr>)"
  using assms
  by (simp add: processData_def Let_def frames_split lines_of_def rest_of_def
      concat_line_weights_filter split_lines_not_Nil)

lemma feed_frames:
  "no_terminator (buffer svc) \<Longrightarrow>
   feed chunks svc =
     (concat (map line_weights (fst (frames (buffer svc) (concat chunks)))),
      svc\<lparr>buffer := snd (frames (buffer svc) (concat chunks))\<rparr>)"
proof (induction chunks arbitrary: svc)
  case Nil
  then show ?case by simp
next
  case (Cons chunk chunks)
  let ?svc' = "svc\<lparr>buffer := snd (frames (buffer svc) chunk)\<rparr>"
  have nt: "no_terminator (buffer ?svc')"
    using Cons.prems by (simp add: frames_rest_no_terminator)
  show ?case
    using Cons.prems Cons.IH [OF nt]
    by (simp add: processData_frames frames_append [of _ chunk])
qed

lemma rest_of_no_terminator: "no_terminator (last (split_lines x))"
proof (induction x rule: split_lines.induct)
  case 1
  then show ?case by (simp add: no_terminator_def)
next
  case (2 c cs)
  show ?case
  proof (cases "is_terminator c")
    case True
    with 2(1) show ?thesis by (simp add: split_lines_not_Nil)
  next
    case False
    obtain l ls where s: "split_lines cs = l # ls"
      using split_lines_not_Nil [of cs] by (cases "split_lines cs") auto
    with 2(2) [OF False] False show ?thesis
      by (cases ls) (auto simp: no_terminator_def)
  qed
qed

lemma new_ScaleService_buffer: "no_terminator (buffer new_ScaleService)"
  by (simp add: new_ScaleService_def no_terminator_def)

lemma processData_buffer: "no_terminator (buffer (snd (processData chunk svc)))"
  by (simp add: processData_def Let_def rest_of_no_terminator split_lines_not_Nil)

lemma feed_buffer:
  "no_terminator (buffer svc) \<Longrightarrow> no_terminator (buffer (snd (feed chunks svc)))"
proof (induction chunks arbitrary: svc)
  case Nil
  then show ?case by simp
next
  case (Cons chunk chunks)
  have "no_terminator (buffer (snd (processData chunk svc)))" by (rule processData_buffer)
  from Cons.IH [OF this] show ?case by (simp add: split_beta)
qed

text \<open>
  Claim C6.  The buffer of a service never holds a terminator (it is empty at first and
  \<open>processData\<close> only ever stores an unterminated rest: \<open>new_ScaleService_buffer\<close>,
  \<open>processData_buffer\<close>).  From any such state, two sequences of chunks that spell the same
  text make \<open>processData\<close> emit the same readings in the same order and leave the same
  buffer; an empty chunk emits nothing and changes nothing.
\<close>

theorem chunk_boundary_independence:
  assumes "no_terminator (buffer svc)" and "concat chunks = concat chunks'"
  shows "feed chunks svc = feed chunks' svc \<and> processData [] svc = ([], svc)"
  using assms by (simp add: feed_frames processData_frames)

text \<open>
  A reading split over three chunks, with an empty chunk and a terminator pair cut in
  the middle, against the same text in one chunk.
\<close>

theorem chunk_boundary_independence_witness:
  "feed [''ST,GS,+ 12'', ''400 kg'' @ [CHR 0x0D], [], [CHR 0x0A] @ ''ST,GS,+ 0 kg'' @ [CHR 0x0A]]
     new_ScaleService
   = feed [''ST,GS,+ 12400 kg'' @ [CHR 0x0D, CHR 0x0A] @ ''ST,GS,+ 0 kg'' @ [CHR 0x0A]]
       new_ScaleService \<and>
   fst (feed [''ST,GS,+ 12400 kg'' @ [CHR 0x0D, CHR 0x0A] @ ''ST,GS,+ 0 kg'' @ [CHR 0x0A]]
          new_ScaleService) = [Fin 12400, Fin 0] \<and>
   processData [] new_ScaleService = ([], new_ScaleService)"
proof -
  let ?a = "[''ST,GS,+ 12'', ''400 kg'' @ [CHR 0x0D], [], [CHR 0x0A] @ ''ST,GS,+ 0 kg'' @ [CHR 0x0A]]"
  let ?b = "[''ST,GS,+ 12400 kg'' @ [CHR 0x0D, CHR 0x0A] @ ''ST,GS,+ 0 kg'' @ [CHR 0x0A]]"
  have nt: "no_terminator (buffer new_ScaleService)"
    by (simp add: new_ScaleService_def no_terminator_def)
  have c: "concat ?a = concat ?b" by simp
  note w = chunk_boundary_independence [OF nt c]
  have sl: "split_lines (''ST,GS,+ 12400 kg'' @ [CHR 0x0D, CHR 0x0A] @ ''ST,GS,+ 0 kg'' @ [CHR 0x0A])
              = [''ST,GS,+ 12400 kg'', ''ST,GS,+ 0 kg'', []]"
    by (simp add: is_terminator_def)
  have l1: "line_weights ''ST,GS,+ 12400 kg'' = [Fin 12400]"
    by (simp add: line_weights_def trim_def parseWeight_def match_number_def parseFloat_def
        is_digit_def is_space_def unsigned_literal_def digits_val_def digit_val_def isNaN_def
        to_double_12400)
  have l2: "line_weights ''ST,GS,+ 0 kg'' = [Fin 0]"
    by (simp add: line_weights_def trim_def parseWeight_def match_number_def parseFloat_def
        is_digit_def is_space_def unsigned_literal_def digits_val_def digit_val_def isNaN_def
        to_double_0)
  have "fst (feed ?b new_ScaleService) = [Fin 12400, Fin 0]"
    using sl l1 l2 by (simp add: processData_def new_ScaleService_def Let_def)
  with w show ?thesis by simp
qed

section \<open>Parsing a line\<close>

lemma digit_not_space: "is_digit c \<Longrightarrow> \<not> is_space c"
  by (auto simp: is_digit_def is_space_def)

lemma digit_not_special:
  "is_digit c \<Longrightarrow> c \<noteq> CHR ''-'' \<and> c \<noteq> CHR ''+'' \<and> c \<noteq> CHR ''I'' \<and> c \<noteq> CHR ''.''"
  by (auto simp: is_digit_def)

lemma mem_dropWhile: "x \<in> set xs \<Longrightarrow> \<not> P x \<Longrightarrow> x \<in> set (dropWhile P xs)"
  by (induction xs) auto

lemma trim_not_Nil:
  assumes "c \<in> set s" and "\<not> is_space c"
  shows "trim s \<noteq> []"
proof -
  from assms have "c \<in> set (dropWhile is_space s)"
    by (simp add: mem_dropWhile)
  with assms(2) show ?thesis by (auto simp: trim_def)
qed

lemma match_number_None:
  "(\<forall>c \<in> set line. \<not> is_digit c) \<Longrightarrow> match_number line = None"
  by (simp add: match_number_def)

lemma takeWhile_digits_all: "\<forall>c \<in> set ds. is_digit c \<Longrightarrow> takeWhile is_digit (ds @ CHR ''.'' # r) = ds"
  by (induction ds) (auto simp: is_digit_def)

lemma dropWhile_digits_all: "\<forall>c \<in> set ds. is_digit c \<Longrightarrow> dropWhile is_digit (ds @ CHR ''.'' # r) = CHR ''.'' # r"
  by (induction ds) (auto simp: is_digit_def)

lemma parseFloat_integer:
  assumes "ds \<noteq> []" and "\<forall>c \<in> set ds. is_digit c"
  shows "parseFloat ds = to_double (of_nat (digits_val ds))"
proof -
  from assms obtain d r where ds: "ds = d # r" and d: "is_digit d"
    by (cases ds) auto
  have 1: "dropWhile is_space ds = ds"
    using ds d by (simp add: digit_not_space)
  have 2: "take 8 ds \<noteq> ''Infinity''"
    using ds d by (auto simp: is_digit_def)
  have tw: "takeWhile is_digit ds = ds" and dw: "dropWhile is_digit ds = []"
    using assms(2) by simp_all
  have 3: "unsigned_literal ds = Some (of_nat (digits_val ds))"
    unfolding unsigned_literal_def Let_def tw dw using assms(1) by simp
  show ?thesis
    unfolding parseFloat_def Let_def 1
    using 2 3 ds digit_not_special [OF d] by simp
qed

lemma parseFloat_decimal:
  assumes "ds \<noteq> []" and "\<forall>c \<in> set ds. is_digit c" and "\<forall>c \<in> set fs. is_digit c" and "fs \<noteq> []"
  shows "parseFloat (ds @ CHR ''.'' # fs)
           = to_double (of_nat (digits_val ds) + of_nat (digits_val fs) / 10 ^ length fs)"
proof -
  let ?m = "ds @ CHR ''.'' # fs"
  from assms obtain d r where ds: "ds = d # r" and d: "is_digit d"
    by (cases ds) auto
  have 1: "dropWhile is_space ?m = ?m"
    using ds d by (simp add: digit_not_space)
  have 2: "take 8 ?m \<noteq> ''Infinity''"
    using ds d by (auto simp: is_digit_def)
  have tw: "takeWhile is_digit ?m = ds" and dw: "dropWhile is_digit ?m = CHR ''.'' # fs"
    using assms(2) by (rule takeWhile_digits_all, rule dropWhile_digits_all)
  have tf: "takeWhile is_digit fs = fs" and df: "dropWhile is_digit fs = []"
    using assms(3) by simp_all
  have 3: "unsigned_literal ?m
             = Some (of_nat (digits_val ds) + of_nat (digits_val fs) / 10 ^ length fs)"
    unfolding unsigned_literal_def Let_def tw dw list.case tf df
    using assms(1) by (simp add: exponent_part_def scale10_def)
  show ?thesis
    unfolding parseFloat_def Let_def 1
    using 2 3 ds digit_not_special [OF d] by simp
qed

lemma match_number_decompose:
  assumes "\<exists>c \<in> set line. is_digit c"
  shows "\<exists>pre ds fs post.
           line = pre @ ds @ (if fs = [] then [] else CHR ''.'' # fs) @ post \<and>
           (\<forall>c \<in> set pre. \<not> is_digit c) \<and> ds \<noteq> [] \<and>
           (\<forall>c \<in> set ds. is_digit c) \<and> (\<forall>c \<in> set fs. is_digit c) \<and>
           (post \<noteq> [] \<longrightarrow> \<not> is_digit (hd post)) \<and>
           (fs = [] \<longrightarrow> (\<forall>d r. post = CHR ''.'' # d # r \<longrightarrow> \<not> is_digit d)) \<and>
           match_number line = Some (ds @ (if fs = [] then [] else CHR ''.'' # fs))"
proof -
  define pre where "pre = takeWhile (\<lambda>c. \<not> is_digit c) line"
  define r where "r = dropWhile (\<lambda>c. \<not> is_digit c) line"
  define ds where "ds = takeWhile is_digit r"
  define rest where "rest = dropWhile is_digit r"
  have e1: "line = pre @ r" by (simp add: pre_def r_def)
  have e2: "r = ds @ rest" by (simp add: ds_def rest_def)
  have pre: "\<forall>c \<in> set pre. \<not> is_digit c"
    unfolding pre_def by (auto dest: set_takeWhileD)
  have r: "r \<noteq> []" using assms by (simp add: r_def)
  have "is_digit (hd r)"
    using r hd_dropWhile [of "\<lambda>c. \<not> is_digit c" line] by (simp add: r_def)
  with r have ds: "ds \<noteq> []" unfolding ds_def by (cases r) auto
  have dsd: "\<forall>c \<in> set ds. is_digit c"
    unfolding ds_def by (auto dest: set_takeWhileD)
  have rest: "rest \<noteq> [] \<longrightarrow> \<not> is_digit (hd rest)"
    unfolding rest_def using hd_dropWhile [of is_digit r] by blast
  have mn: "match_number line =
     (case rest of [] \<Rightarrow> Some ds
      | d # rest' \<Rightarrow> if d = CHR ''.'' \<and> takeWhile is_digit rest' \<noteq> []
                     then Some (ds @ [d] @ takeWhile is_digit rest') else Some ds)"
    using r unfolding match_number_def Let_def r_def [symmetric] ds_def [symmetric] rest_def [symmetric]
    by (simp only: if_False)
  show ?thesis
  proof (cases "\<exists>rest'. rest = CHR ''.'' # rest' \<and> takeWhile is_digit rest' \<noteq> []")
    case True
    then obtain rest' where rest': "rest = CHR ''.'' # rest'" and fne: "takeWhile is_digit rest' \<noteq> []"
      by blast
    define fs where "fs = takeWhile is_digit rest'"
    define post where "post = dropWhile is_digit rest'"
    have fs: "fs \<noteq> []" using fne by (simp add: fs_def)
    have e3: "rest = (if fs = [] then [] else CHR ''.'' # fs) @ post"
      using fs rest' by (simp add: fs_def post_def)
    have c1: "line = pre @ ds @ (if fs = [] then [] else CHR ''.'' # fs) @ post"
      using e1 e2 e3 by metis
    have c5: "\<forall>c \<in> set fs. is_digit c"
      unfolding fs_def by (auto dest: set_takeWhileD)
    have c6: "post \<noteq> [] \<longrightarrow> \<not> is_digit (hd post)"
      unfolding post_def using hd_dropWhile [of is_digit rest'] by blast
    have c7: "fs = [] \<longrightarrow> (\<forall>d r. post = CHR ''.'' # d # r \<longrightarrow> \<not> is_digit d)"
      using fs by simp
    have c8: "match_number line = Some (ds @ (if fs = [] then [] else CHR ''.'' # fs))"
      using fs fne by (simp add: mn rest' fs_def)
    from c1 pre ds dsd c5 c6 c7 c8 show ?thesis by blast
  next
    case False
    have c1: "line = pre @ ds @ (if ([]::string) = [] then [] else CHR ''.'' # []) @ rest"
      using e1 e2 by simp
    have c5: "\<forall>c \<in> set ([]::string). is_digit c" by simp
    have c7: "([]::string) = [] \<longrightarrow> (\<forall>d r. rest = CHR ''.'' # d # r \<longrightarrow> \<not> is_digit d)"
    proof (intro allI impI)
      fix d r' assume e: "rest = CHR ''.'' # d # r'"
      show "\<not> is_digit d"
      proof
        assume "is_digit d"
        then have "takeWhile is_digit (d # r') \<noteq> []" by simp
        with False e show False by blast
      qed
    qed
    have c8: "match_number line = Some (ds @ (if ([]::string) = [] then [] else CHR ''.'' # []))"
    proof (cases rest)
      case Nil
      then show ?thesis by (simp add: mn)
    next
      case (Cons d rest')
      with False have "\<not> (d = CHR ''.'' \<and> takeWhile is_digit rest' \<noteq> [])" by blast
      with Cons show ?thesis by (simp add: mn)
    qed
    from c1 pre ds dsd c5 rest c7 c8 show ?thesis by blast
  qed
qed

lemma digits_val_Nil: "digits_val [] = 0"
  by (simp add: digits_val_def)

lemma match_number_Some_digit:
  "match_number line = Some m \<Longrightarrow> \<exists>c \<in> set line. is_digit c"
  by (cases "\<exists>c \<in> set line. is_digit c") (auto simp: match_number_None)

lemma line_weights_digit:
  assumes "\<exists>c \<in> set line. is_digit c"
  shows "line_weights line = (case parseWeight line of Some weight \<Rightarrow> [weight] | None \<Rightarrow> [])"
proof -
  from assms obtain c where "c \<in> set line" "\<not> is_space c"
    using digit_not_space by blast
  then have "trim line \<noteq> []" by (rule trim_not_Nil)
  then show ?thesis by (simp add: line_weights_def)
qed

lemma digits_val_snoc: "digits_val (ds @ [c]) = 10 * digits_val ds + digit_val c"
  by (simp add: digits_val_def)

lemma digits_val_zeros: "digits_val (ds @ replicate n (CHR ''0'')) = digits_val ds * 10 ^ n"
proof (induction n)
  case 0
  then show ?case by simp
next
  case (Suc n)
  have "ds @ replicate (Suc n) (CHR ''0'') = (ds @ replicate n (CHR ''0'')) @ [CHR ''0'']"
    by (simp add: replicate_append_same)
  then have "digits_val (ds @ replicate (Suc n) (CHR ''0''))
      = 10 * digits_val (ds @ replicate n (CHR ''0'')) + digit_val (CHR ''0'')"
    by (simp only: digits_val_snoc)
  with Suc show ?case by (simp add: digit_val_def)
qed

text \<open>
  The test on the parsed value is \<^verbatim>\<open>!isNaN\<close>, so a digit run beyond the double range is
  emitted as an infinite reading: a one followed by 309 zeros.
\<close>

lemma line_weights_overflow:
  "line_weights (CHR ''1'' # replicate 309 (CHR ''0'')) = [PosInf]"
proof -
  let ?ds = "CHR ''1'' # replicate 309 (CHR ''0'')"
  have d: "\<forall>c \<in> set ?ds. is_digit c" by (simp add: is_digit_def)
  have "digits_val ([CHR ''1''] @ replicate 309 (CHR ''0'')) = digits_val [CHR ''1''] * 10 ^ 309"
    by (rule digits_val_zeros)
  then have v: "digits_val ?ds = 10 ^ 309"
    by (simp add: digits_val_def digit_val_def)
  have "parseFloat ?ds = to_double (of_nat (digits_val ?ds))"
    using d by (intro parseFloat_integer) simp_all
  also have "\<dots> = PosInf"
    unfolding v by (simp add: to_double_def)
  finally have pf: "parseFloat ?ds = PosInf" .
  have "takeWhile is_digit ?ds = ?ds" "dropWhile is_digit ?ds = []"
    using d by simp_all
  then have "match_number ?ds = Some ?ds"
    by (simp add: match_number_def is_digit_def)
  with pf have "parseWeight ?ds = Some PosInf"
    by (simp add: parseWeight_def isNaN_def)
  moreover have "\<exists>c \<in> set ?ds. is_digit c" by (simp add: is_digit_def)
  ultimately show ?thesis by (simp add: line_weights_digit)
qed

text \<open>
  Claim C7.  A line without a digit gives no reading.  A line with a digit splits as
  \<open>pre @ ds @ frac @ post\<close>, where \<open>pre\<close> has no digit, \<open>ds\<close> is the maximal run of digits
  that follows, and \<open>frac\<close> is a point with the maximal run of digits \<open>fs\<close> after it when a
  point and a digit follow (and nothing otherwise); the line gives exactly one reading,
  what \<^verbatim>\<open>parseFloat\<close> makes of \<open>ds @ frac\<close>: with \<open>v\<close> the decimal value of \<open>ds\<close> and \<open>fs\<close>, the
  finite number nearest to \<open>v\<close> when \<open>v\<close> parses to a finite number (below
  \<open>2 ^ 1024 - 2 ^ 970\<close>), which is \<open>v\<close> itself for a whole number below \<open>2 ^ 53\<close>, and otherwise
  the infinite reading.  A line whose match is \<^verbatim>\<open>0\<close> gives the reading 0, and the line
  \<^verbatim>\<open>ST,GS,+ 12400 kg\<close> gives 12400.
\<close>

theorem parseWeight_first_number:
  "((\<forall>c \<in> set line. \<not> is_digit c) \<longrightarrow> parseWeight line = None \<and> line_weights line = []) \<and>
   ((\<exists>c \<in> set line. is_digit c) \<longrightarrow>
      (\<exists>pre ds fs post v.
         line = pre @ ds @ (if fs = [] then [] else CHR ''.'' # fs) @ post \<and>
         (\<forall>c \<in> set pre. \<not> is_digit c) \<and> ds \<noteq> [] \<and>
         (\<forall>c \<in> set ds. is_digit c) \<and> (\<forall>c \<in> set fs. is_digit c) \<and>
         (post \<noteq> [] \<longrightarrow> \<not> is_digit (hd post)) \<and>
         (fs = [] \<longrightarrow> (\<forall>d r. post = CHR ''.'' # d # r \<longrightarrow> \<not> is_digit d)) \<and>
         match_number line = Some (ds @ (if fs = [] then [] else CHR ''.'' # fs)) \<and>
         v = of_nat (digits_val ds) + of_nat (digits_val fs) / 10 ^ length fs \<and>
         parseWeight line = Some (parseFloat (ds @ (if fs = [] then [] else CHR ''.'' # fs))) \<and>
         line_weights line = [parseFloat (ds @ (if fs = [] then [] else CHR ''.'' # fs))] \<and>
         parseFloat (ds @ (if fs = [] then [] else CHR ''.'' # fs)) = to_double v \<and>
         (v < 2 ^ 1024 - 2 ^ 970 \<longrightarrow> line_weights line = [Fin (nearest_double v)]) \<and>
         (fs = [] \<and> digits_val ds < 2 ^ 53 \<longrightarrow>
            line_weights line = [Fin (of_nat (digits_val ds))]) \<and>
         (2 ^ 1024 - 2 ^ 970 \<le> v \<longrightarrow> line_weights line = [PosInf]))) \<and>
   (match_number line = Some ''0'' \<longrightarrow> line_weights line = [Fin 0]) \<and>
   line_weights ''ST,GS,+ 12400 kg'' = [Fin 12400]"
proof (intro conjI impI)
  assume nd: "\<forall>c \<in> set line. \<not> is_digit c"
  then show "parseWeight line = None"
    by (simp add: parseWeight_def match_number_None)
  then show "line_weights line = []"
    by (simp add: line_weights_def)
next
  assume d: "\<exists>c \<in> set line. is_digit c"
  from match_number_decompose [OF d] obtain pre ds fs post where
    dec: "line = pre @ ds @ (if fs = [] then [] else CHR ''.'' # fs) @ post"
      "\<forall>c \<in> set pre. \<not> is_digit c" "ds \<noteq> []"
      "\<forall>c \<in> set ds. is_digit c" "\<forall>c \<in> set fs. is_digit c"
      "post \<noteq> [] \<longrightarrow> \<not> is_digit (hd post)"
      "fs = [] \<longrightarrow> (\<forall>d r. post = CHR ''.'' # d # r \<longrightarrow> \<not> is_digit d)"
      "match_number line = Some (ds @ (if fs = [] then [] else CHR ''.'' # fs))"
    by blast
  define m where "m = ds @ (if fs = [] then [] else CHR ''.'' # fs)"
  define v :: rat where "v = of_nat (digits_val ds) + of_nat (digits_val fs) / 10 ^ length fs"
  have v0: "0 \<le> v" by (simp add: v_def)
  have pf: "parseFloat m = to_double v"
  proof (cases "fs = []")
    case True
    with dec(3,4) show ?thesis by (simp add: m_def v_def parseFloat_integer digits_val_Nil)
  next
    case False
    with dec(3,4,5) show ?thesis by (simp add: m_def v_def parseFloat_decimal)
  qed
  have pw: "parseWeight line = Some (parseFloat m)"
    using dec(8) pf by (simp add: m_def [symmetric] parseWeight_def isNaN_def to_double_not_NaN)
  then have lw: "line_weights line = [parseFloat m]"
    using d by (simp add: line_weights_digit)
  have fin: "v < 2 ^ 1024 - 2 ^ 970 \<longrightarrow> line_weights line = [Fin (nearest_double v)]"
    using to_double_nonneg [OF v0] lw pf by simp
  have inf: "2 ^ 1024 - 2 ^ 970 \<le> v \<longrightarrow> line_weights line = [PosInf]"
    using to_double_nonneg [OF v0] lw pf by simp
  have whole: "fs = [] \<and> digits_val ds < 2 ^ 53 \<longrightarrow>
            line_weights line = [Fin (of_nat (digits_val ds))]"
  proof
    assume a: "fs = [] \<and> digits_val ds < 2 ^ 53"
    then have "v = of_nat (digits_val ds)" by (simp add: v_def digits_val_Nil)
    with a lw pf show "line_weights line = [Fin (of_nat (digits_val ds))]"
      by (simp add: to_double_nat)
  qed
  from dec pw lw pf fin inf whole
  have "line = pre @ ds @ (if fs = [] then [] else CHR ''.'' # fs) @ post \<and>
         (\<forall>c \<in> set pre. \<not> is_digit c) \<and> ds \<noteq> [] \<and>
         (\<forall>c \<in> set ds. is_digit c) \<and> (\<forall>c \<in> set fs. is_digit c) \<and>
         (post \<noteq> [] \<longrightarrow> \<not> is_digit (hd post)) \<and>
         (fs = [] \<longrightarrow> (\<forall>d r. post = CHR ''.'' # d # r \<longrightarrow> \<not> is_digit d)) \<and>
         match_number line = Some (ds @ (if fs = [] then [] else CHR ''.'' # fs)) \<and>
         v = of_nat (digits_val ds) + of_nat (digits_val fs) / 10 ^ length fs \<and>
         parseWeight line = Some (parseFloat (ds @ (if fs = [] then [] else CHR ''.'' # fs))) \<and>
         line_weights line = [parseFloat (ds @ (if fs = [] then [] else CHR ''.'' # fs))] \<and>
         parseFloat (ds @ (if fs = [] then [] else CHR ''.'' # fs)) = to_double v \<and>
         (v < 2 ^ 1024 - 2 ^ 970 \<longrightarrow> line_weights line = [Fin (nearest_double v)]) \<and>
         (fs = [] \<and> digits_val ds < 2 ^ 53 \<longrightarrow>
            line_weights line = [Fin (of_nat (digits_val ds))]) \<and>
         (2 ^ 1024 - 2 ^ 970 \<le> v \<longrightarrow> line_weights line = [PosInf])"
    unfolding m_def [symmetric] using v_def by (intro conjI) (assumption | simp only: m_def)+
  then show "\<exists>pre ds fs post v.
         line = pre @ ds @ (if fs = [] then [] else CHR ''.'' # fs) @ post \<and>
         (\<forall>c \<in> set pre. \<not> is_digit c) \<and> ds \<noteq> [] \<and>
         (\<forall>c \<in> set ds. is_digit c) \<and> (\<forall>c \<in> set fs. is_digit c) \<and>
         (post \<noteq> [] \<longrightarrow> \<not> is_digit (hd post)) \<and>
         (fs = [] \<longrightarrow> (\<forall>d r. post = CHR ''.'' # d # r \<longrightarrow> \<not> is_digit d)) \<and>
         match_number line = Some (ds @ (if fs = [] then [] else CHR ''.'' # fs)) \<and>
         v = of_nat (digits_val ds) + of_nat (digits_val fs) / 10 ^ length fs \<and>
         parseWeight line = Some (parseFloat (ds @ (if fs = [] then [] else CHR ''.'' # fs))) \<and>
         line_weights line = [parseFloat (ds @ (if fs = [] then [] else CHR ''.'' # fs))] \<and>
         parseFloat (ds @ (if fs = [] then [] else CHR ''.'' # fs)) = to_double v \<and>
         (v < 2 ^ 1024 - 2 ^ 970 \<longrightarrow> line_weights line = [Fin (nearest_double v)]) \<and>
         (fs = [] \<and> digits_val ds < 2 ^ 53 \<longrightarrow>
            line_weights line = [Fin (of_nat (digits_val ds))]) \<and>
         (2 ^ 1024 - 2 ^ 970 \<le> v \<longrightarrow> line_weights line = [PosInf])"
    by blast
next
  assume m: "match_number line = Some ''0''"
  have "parseFloat ''0'' = Fin 0"
    by (simp add: parseFloat_def is_digit_def is_space_def unsigned_literal_def
        digits_val_def digit_val_def to_double_0)
  with m have "parseWeight line = Some (Fin 0)"
    by (simp add: parseWeight_def isNaN_def)
  moreover from m have "\<exists>c \<in> set line. is_digit c" by (rule match_number_Some_digit)
  ultimately show "line_weights line = [Fin 0]" by (simp add: line_weights_digit)
next
  have "parseWeight ''ST,GS,+ 12400 kg'' = Some (Fin 12400)"
    by (simp add: parseWeight_def match_number_def parseFloat_def is_digit_def is_space_def
        unsigned_literal_def digits_val_def digit_val_def isNaN_def to_double_12400)
  moreover have "\<exists>c \<in> set ''ST,GS,+ 12400 kg''. is_digit c"
    by (simp add: is_digit_def)
  ultimately show "line_weights ''ST,GS,+ 12400 kg'' = [Fin 12400]"
    by (simp add: line_weights_digit)
qed

text \<open>
  A line of status characters only, and a line that reads zero: it has a digit, its match
  is \<^verbatim>\<open>0\<close>, and the reading is the finite number 0.
\<close>

theorem parseWeight_first_number_witness:
  "line_weights ''ST,GS,+ kg'' = [] \<and> length (line_weights ''ZERO 0 kg'') = 1 \<and>
   line_weights ''ZERO 0 kg'' = [Fin 0]"
proof -
  have n: "\<forall>c \<in> set ''ST,GS,+ kg''. \<not> is_digit c" by (simp add: is_digit_def)
  have 1: "line_weights ''ST,GS,+ kg'' = []"
    using parseWeight_first_number [of "''ST,GS,+ kg''", THEN conjunct1, THEN mp, OF n]
    by (rule conjunct2)
  have d: "\<exists>c \<in> set ''ZERO 0 kg''. is_digit c" by (simp add: is_digit_def)
  from parseWeight_first_number [of "''ZERO 0 kg''", THEN conjunct2, THEN conjunct1, THEN mp, OF d]
  obtain x where "line_weights ''ZERO 0 kg'' = [x]" by blast
  then have 2: "length (line_weights ''ZERO 0 kg'') = 1" by simp
  have m: "match_number ''ZERO 0 kg'' = Some ''0''"
    by (simp add: match_number_def is_digit_def)
  have 3: "line_weights ''ZERO 0 kg'' = [Fin 0]"
    using parseWeight_first_number [of "''ZERO 0 kg''", THEN conjunct2, THEN conjunct2,
        THEN conjunct1, THEN mp, OF m] .
  from 1 2 3 show ?thesis by blast
qed

section \<open>Connecting to the scale\<close>

text \<open>
  Claim C5, as amended.  \<open>connect\<close> throws (an \<^verbatim>\<open>Error\<close>) only when the platform has no
  serial capability.  When the request for a device is rejected (the user or the system
  declines) or opening the selected port fails, the \<^verbatim>\<open>catch\<close> block logs the exception and
  the promise resolves to \<^verbatim>\<open>false\<close>; it also resolves to \<^verbatim>\<open>false\<close> when no port comes back.
  It resolves to \<^verbatim>\<open>true\<close> exactly when a port was selected and opened.
\<close>

theorem connect_outcomes:
  "(nav = None \<longrightarrow>
      connect nav svc = (Inl (Error ''Web Serial API not supported in this browser.''), svc, [])) \<and>
   (\<forall>e. nav = Some (Inl e) \<longrightarrow> connect nav svc = (Inr False, svc, [e])) \<and>
   (nav = Some (Inr None) \<longrightarrow> connect nav svc = (Inr False, svc\<lparr>port := None\<rparr>, [])) \<and>
   (\<forall>p e. nav = Some (Inr (Some p)) \<and> open_result p = Inl e \<longrightarrow>
      connect nav svc = (Inr False, svc\<lparr>port := Some p\<rparr>, [e])) \<and>
   (fst (connect nav svc) = Inr True \<longleftrightarrow>
      (\<exists>p. nav = Some (Inr (Some p)) \<and> open_result p = Inr ()))"
  by (auto simp: connect_def Let_def split: option.splits sum.splits)

text \<open>
  The four outcomes at a fresh service: no capability, a dismissed chooser, a port that
  fails to open, a port that opens.
\<close>

theorem connect_outcomes_witness:
  "fst (connect None new_ScaleService)
     = Inl (Error ''Web Serial API not supported in this browser.'') \<and>
   fst (connect (Some (Inl (DOMException ''NotFoundError''))) new_ScaleService) = Inr False \<and>
   fst (connect (Some (Inr (Some \<lparr>readable = True,
          open_result = Inl (DOMException ''NetworkError'')\<rparr>))) new_ScaleService) = Inr False \<and>
   fst (connect (Some (Inr (Some \<lparr>readable = True, open_result = Inr ()\<rparr>))) new_ScaleService)
     = Inr True"
  using connect_outcomes [of None new_ScaleService]
    connect_outcomes [of "Some (Inl (DOMException ''NotFoundError''))" new_ScaleService]
    connect_outcomes [of "Some (Inr (Some \<lparr>readable = True,
          open_result = Inl (DOMException ''NetworkError'')\<rparr>))" new_ScaleService]
    connect_outcomes [of "Some (Inr (Some \<lparr>readable = True, open_result = Inr ()\<rparr>))"
      new_ScaleService]
  by simp

text \<open>
  A declined request and a failed open do not make \<open>connect\<close> fail: the promise resolves
  (to \<^verbatim>\<open>false\<close>), and the exception is only logged.
\<close>

theorem connect_counterexample:
  "connect (Some (Inl (DOMException ''NotFoundError''))) new_ScaleService
     = (Inr False, new_ScaleService, [DOMException ''NotFoundError'']) \<and>
   fst (connect (Some (Inr (Some \<lparr>readable = True,
          open_result = Inl (DOMException ''NetworkError'')\<rparr>))) new_ScaleService) = Inr False"
  by (simp add: connect_def)

section \<open>Confirming a draft\<close>

lemma parseFloat_empty: "parseFloat [] = NaN"
  by (simp add: parseFloat_def unsigned_literal_def)

lemma confirm_weight_manual:
  "useManualWeight c \<Longrightarrow> confirm_weight c \<noteq> NaN"
  by (simp add: confirm_weight_def or_zero_def)

lemma processInbound_ticket:
  "\<exists>t. processInbound (Some cam) uuid now data c
          = (resetConsole c, saveTicket t data, [GetScreenshot, TicketComplete]) \<and>
        id_t t = uuid \<and> inboundWeight t = confirm_weight c \<and> status t = OPEN \<and>
        outboundWeight t = None \<and> outboundTime t = None \<and> outboundImage t = None \<and>
        netWeight t = None \<and> ratePerKg t = None \<and> totalCost t = None"
proof -
  let ?t = "\<lparr>id_t = uuid, licensePlate = or_text (detectedPlate c) ''UNKNOWN'',
      companyName = None, materialType = material c, inboundWeight = confirm_weight c,
      inboundTime = now,
      inboundImage = (case getScreenshot cam of None \<Rightarrow> [] | Some i \<Rightarrow> i),
      outboundWeight = None, outboundTime = None, outboundImage = None,
      netWeight = None, ratePerKg = None, totalCost = None, status = OPEN\<rparr>"
  have "processInbound (Some cam) uuid now data c
          = (resetConsole c, saveTicket ?t data, [GetScreenshot, TicketComplete])"
    by (simp add: processInbound_def Let_def)
  then show ?thesis
    by (intro exI [of _ ?t]) simp
qed

lemma processOutbound_ticket:
  assumes "matchedTicket c = Some mt"
  shows "\<exists>t. processOutbound (Some cam) now data c
          = (c\<lparr>lastPrintedTicket := Some t\<rparr>, saveTicket t data,
             [GetScreenshot, SetTimeout 500]) \<and>
        id_t t = id_t mt \<and> status t = CLOSED \<and>
        outboundWeight t = Some (confirm_weight c) \<and> outboundTime t = Some now \<and>
        outboundImage t \<noteq> None \<and>
        netWeight t = Some (Math_abs (sub (inboundWeight mt) (confirm_weight c))) \<and>
        ratePerKg t = Some (Fin (1 / 4)) \<and>
        totalCost t = Some (mul (Math_abs (sub (inboundWeight mt) (confirm_weight c))) (Fin (1 / 4)))"
proof -
  let ?net = "Math_abs (sub (inboundWeight mt) (confirm_weight c))"
  let ?t = "mt\<lparr>outboundWeight := Some (confirm_weight c), outboundTime := Some now,
      outboundImage := Some (case getScreenshot cam of None \<Rightarrow> [] | Some i \<Rightarrow> i),
      netWeight := Some ?net, ratePerKg := Some (Fin (1 / 4)),
      totalCost := Some (mul ?net (Fin (1 / 4))), status := CLOSED\<rparr>"
  have "processOutbound (Some cam) now data c
          = (c\<lparr>lastPrintedTicket := Some ?t\<rparr>, saveTicket ?t data,
             [GetScreenshot, SetTimeout 500])"
    using assms by (simp add: processOutbound_def Let_def)
  then show ?thesis
    by (intro exI [of _ ?t]) simp
qed



text \<open>
  Claim C10, as amended.  Under the manual override the weight a confirm records is never
  \<open>NaN\<close>; when the entry is empty or \<^verbatim>\<open>parseFloat\<close> makes \<open>NaN\<close> of it, the weight recorded is
  exactly 0, as the inbound weight of the ticket \<open>processInbound\<close> saves and as the
  outbound weight of the ticket \<open>processOutbound\<close> saves; and the weight recorded is a
  finite number exactly when \<^verbatim>\<open>parseFloat\<close> does not make an infinity of the entry.
\<close>

theorem manual_weight_zero:
  "(useManualWeight c \<longrightarrow> confirm_weight c \<noteq> NaN) \<and>
   (useManualWeight c \<and> (manualWeight c = [] \<or> parseFloat (manualWeight c) = NaN) \<longrightarrow>
      confirm_weight c = Fin 0 \<and>
      (\<exists>t. processInbound (Some cam) uuid now data c
              = (resetConsole c, saveTicket t data, [GetScreenshot, TicketComplete]) \<and>
            inboundWeight t = Fin 0) \<and>
      (\<forall>mt. matchedTicket c = Some mt \<longrightarrow>
         (\<exists>t. processOutbound (Some cam) now data c
                 = (c\<lparr>lastPrintedTicket := Some t\<rparr>, saveTicket t data,
                    [GetScreenshot, SetTimeout 500]) \<and>
               outboundWeight t = Some (Fin 0)))) \<and>
   (useManualWeight c \<longrightarrow>
      ((\<exists>r. confirm_weight c = Fin r) \<longleftrightarrow>
         parseFloat (manualWeight c) \<noteq> PosInf \<and> parseFloat (manualWeight c) \<noteq> NegInf)) \<and>
   (\<exists>t. processInbound (Some cam) uuid now data c
           = (resetConsole c, saveTicket t data, [GetScreenshot, TicketComplete]) \<and>
         inboundWeight t = confirm_weight c) \<and>
   (\<forall>mt. matchedTicket c = Some mt \<longrightarrow>
      (\<exists>t. processOutbound (Some cam) now data c
              = (c\<lparr>lastPrintedTicket := Some t\<rparr>, saveTicket t data,
                 [GetScreenshot, SetTimeout 500]) \<and>
            outboundWeight t = Some (confirm_weight c)))"
proof (intro conjI impI allI)
  assume "useManualWeight c"
  then show "confirm_weight c \<noteq> NaN" by (rule confirm_weight_manual)
next
  assume a: "useManualWeight c \<and> (manualWeight c = [] \<or> parseFloat (manualWeight c) = NaN)"
  then have "parseFloat (manualWeight c) = NaN" using parseFloat_empty by auto
  with a show z: "confirm_weight c = Fin 0"
    by (simp add: confirm_weight_def or_zero_def)
  from processInbound_ticket [of cam uuid now data c] z
  show "\<exists>t. processInbound (Some cam) uuid now data c
              = (resetConsole c, saveTicket t data, [GetScreenshot, TicketComplete]) \<and>
            inboundWeight t = Fin 0"
    by auto
  fix mt assume "matchedTicket c = Some mt"
  from processOutbound_ticket [OF this, of cam now data] z
  show "\<exists>t. processOutbound (Some cam) now data c
                 = (c\<lparr>lastPrintedTicket := Some t\<rparr>, saveTicket t data,
                    [GetScreenshot, SetTimeout 500]) \<and>
               outboundWeight t = Some (Fin 0)"
    by auto
next
  assume "useManualWeight c"
  then show "(\<exists>r. confirm_weight c = Fin r) \<longleftrightarrow>
         parseFloat (manualWeight c) \<noteq> PosInf \<and> parseFloat (manualWeight c) \<noteq> NegInf"
    by (cases "parseFloat (manualWeight c)") (simp_all add: confirm_weight_def or_zero_def)
next
  from processInbound_ticket [of cam uuid now data c]
  show "\<exists>t. processInbound (Some cam) uuid now data c
           = (resetConsole c, saveTicket t data, [GetScreenshot, TicketComplete]) \<and>
         inboundWeight t = confirm_weight c"
    by auto
next
  fix mt assume "matchedTicket c = Some mt"
  from processOutbound_ticket [OF this, of cam now data]
  show "\<exists>t. processOutbound (Some cam) now data c
              = (c\<lparr>lastPrintedTicket := Some t\<rparr>, saveTicket t data,
                 [GetScreenshot, SetTimeout 500]) \<and>
            outboundWeight t = Some (confirm_weight c)"
    by auto
qed

text \<open>
  An empty entry and an entry that is not a number, both recorded as 0; and the entry
  \<^verbatim>\<open>Infinity\<close>, which is not recorded as 0.
\<close>

theorem manual_weight_zero_witness:
  "confirm_weight (manual_console '''') = Fin 0 \<and>
   confirm_weight (manual_console ''kg'') = Fin 0 \<and>
   map inboundWeight (getTickets (fst (snd (processInbound (Some \<lparr>getScreenshot = None\<rparr>)
      ''id-1'' 7 None (manual_console ''kg''))))) = [Fin 0] \<and>
   confirm_weight (manual_console ''Infinity'') \<noteq> Fin 0"
proof -
  have m: "useManualWeight (manual_console v)" for v
    by (simp add: manual_console_def)
  have e: "manualWeight (manual_console '''') = []"
    by (simp add: manual_console_def)
  have k: "parseFloat (manualWeight (manual_console ''kg'')) = NaN"
    by (simp add: manual_console_def parseFloat_def unsigned_literal_def is_space_def is_digit_def)
  have i: "parseFloat (manualWeight (manual_console ''Infinity'')) = PosInf"
    by (simp add: manual_console_def parseFloat_def is_space_def)
  note w1 = manual_weight_zero [of "manual_console ''''" "\<lparr>getScreenshot = None\<rparr>" "''id-1''" 7 None,
      THEN conjunct2, THEN conjunct1, THEN mp, OF conjI [OF m disjI1 [OF e]]]
  note w2 = manual_weight_zero [of "manual_console ''kg''" "\<lparr>getScreenshot = None\<rparr>" "''id-1''" 7 None,
      THEN conjunct2, THEN conjunct1, THEN mp, OF conjI [OF m disjI2 [OF k]]]
  note w3 = manual_weight_zero [of "manual_console ''Infinity''" "\<lparr>getScreenshot = None\<rparr>"
      "''id-1''" 7 None, THEN conjunct2, THEN conjunct2, THEN conjunct1, THEN mp, OF m]
  from w2 obtain t where t: "processInbound (Some \<lparr>getScreenshot = None\<rparr>) ''id-1'' 7 None
        (manual_console ''kg'')
      = (resetConsole (manual_console ''kg''), saveTicket t None, [GetScreenshot, TicketComplete])"
    and z: "inboundWeight t = Fin 0"
    by blast
  have "getTickets (saveTicket t None) = [t]"
    by (simp add: saveTicket_def getTickets_def)
  moreover from w3 i have "confirm_weight (manual_console ''Infinity'') \<noteq> Fin 0"
    by auto
  ultimately show ?thesis using t z w1 w2 by simp
qed

text \<open>
  The recorded weight is not always finite: the entry \<^verbatim>\<open>1e309\<close> is a decimal literal
  beyond the double range, \<^verbatim>\<open>parseFloat\<close> makes \<open>Infinity\<close> of it, which is truthy, and
  \<open>processInbound\<close> saves it as the inbound weight.
\<close>

theorem manual_weight_zero_counterexample:
  "useManualWeight (manual_console ''1e309'') \<and>
   confirm_weight (manual_console ''1e309'') = PosInf \<and>
   map inboundWeight (getTickets (fst (snd (processInbound (Some \<lparr>getScreenshot = None\<rparr>)
      ''id-1'' 7 None (manual_console ''1e309''))))) = [PosInf]"
proof -
  have p: "parseFloat ''1e309'' = PosInf"
    by (simp add: parseFloat_def unsigned_literal_def exponent_part_def scale10_def
        is_space_def is_digit_def digits_val_def digit_val_def to_double_def)
  then have c: "confirm_weight (manual_console ''1e309'') = PosInf"
    by (simp add: confirm_weight_def manual_console_def or_zero_def)
  then show ?thesis
    by (simp add: processInbound_def Let_def saveTicket_def getTickets_def manual_console_def)
qed

section \<open>The capture guard\<close>

text \<open>
  Claim C4.  While the state is MOTION and the override is off, a capture request leaves
  the console as it was (in particular its mode), takes no screenshot and calls no
  identifier, and the whole system, ledger included, is unchanged; with the camera
  mounted the operator gets the alert that the scale is unstable.  Conversely a capture
  that takes a screenshot, or that changes the console at all, was requested with the
  state STABLE or the override on.
\<close>

theorem handleCapture_not_stable:
  "(\<not> isStable c \<and> \<not> useManualWeight c \<longrightarrow>
      handleCapture (Some cam) identifyTruck data c
        = (c, [Alert ''Scale is unstable. Please wait for the STABLE indicator.'']) \<and>
      fst (handleCapture webcamRef identifyTruck data c) = c \<and>
      GetScreenshot \<notin> set (snd (handleCapture webcamRef identifyTruck data c)) \<and>
      (\<forall>img. IdentifyTruck img \<notin> set (snd (handleCapture webcamRef identifyTruck data c))) \<and>
      (console s = c \<longrightarrow> step (Capture webcamRef identifyTruck) s = s)) \<and>
   (GetScreenshot \<in> set (snd (handleCapture webcamRef identifyTruck data c)) \<longrightarrow>
      isStable c \<or> useManualWeight c) \<and>
   (fst (handleCapture webcamRef identifyTruck data c) \<noteq> c \<longrightarrow>
      isStable c \<or> useManualWeight c)"
proof -
  have rej: "handleCapture w identifyTruck d c
        = (case w of None \<Rightarrow> (c, [])
           | Some cam \<Rightarrow> (c, [Alert ''Scale is unstable. Please wait for the STABLE indicator.'']))"
    if "\<not> isStable c \<and> \<not> useManualWeight c" for w d
    using that by (simp add: handleCapture_def split: option.splits)
  show ?thesis
  proof (cases "\<not> isStable c \<and> \<not> useManualWeight c")
    case True
    have "step (Capture webcamRef identifyTruck) s = s" if "console s = c"
      using that rej [OF True, of webcamRef "ledger s"] by (cases webcamRef) simp_all
    with True rej [OF True] show ?thesis
      by (cases webcamRef) simp_all
  next
    case False
    then show ?thesis by blast
  qed
qed

text \<open>
  A moving scale without override is refused; the same console once STABLE is accepted.
\<close>

theorem handleCapture_not_stable_witness:
  "handleCapture (Some \<lparr>getScreenshot = Some ''jpeg''\<rparr>)
     (\<lambda>img. \<lparr>licensePlate_r = ''ABC123'', confidence = Fin 1\<rparr>) None moving_console
   = (moving_console, [Alert ''Scale is unstable. Please wait for the STABLE indicator.'']) \<and>
   mode (fst (handleCapture (Some \<lparr>getScreenshot = Some ''jpeg''\<rparr>)
     (\<lambda>img. \<lparr>licensePlate_r = ''ABC123'', confidence = Fin 1\<rparr>) None moving_console)) = IDLE \<and>
   isStable (moving_console\<lparr>isStable := True\<rparr>) \<and>
   GetScreenshot \<in> set (snd (handleCapture (Some \<lparr>getScreenshot = Some ''jpeg''\<rparr>)
     (\<lambda>img. \<lparr>licensePlate_r = ''ABC123'', confidence = Fin 1\<rparr>) None
     (moving_console\<lparr>isStable := True\<rparr>)))"
proof -
  have m: "\<not> isStable moving_console \<and> \<not> useManualWeight moving_console"
    by (simp add: moving_console_def initial_console_def)
  note w = handleCapture_not_stable [of moving_console "\<lparr>getScreenshot = Some ''jpeg''\<rparr>"
      "\<lambda>img. \<lparr>licensePlate_r = ''ABC123'', confidence = Fin 1\<rparr>" None
      "Some \<lparr>getScreenshot = Some ''jpeg''\<rparr>", THEN conjunct1, THEN mp, OF m]
  have i: "mode moving_console = IDLE"
    by (simp add: moving_console_def initial_console_def)
  have g: "GetScreenshot \<in> set (snd (handleCapture (Some \<lparr>getScreenshot = Some ''jpeg''\<rparr>)
     (\<lambda>img. \<lparr>licensePlate_r = ''ABC123'', confidence = Fin 1\<rparr>) None
     (moving_console\<lparr>isStable := True\<rparr>)))"
    by (simp add: handleCapture_def findOpenTicketByPlate_def getTickets_def)
  from handleCapture_not_stable [of "moving_console\<lparr>isStable := True\<rparr>" _ _ _
      "Some \<lparr>getScreenshot = Some ''jpeg''\<rparr>", THEN conjunct2, THEN conjunct1, THEN mp, OF g]
  have "isStable (moving_console\<lparr>isStable := True\<rparr>)" by simp
  with w i g show ?thesis by simp
qed

section \<open>The ledger invariant\<close>

lemma findIndex_Some_less: "findIndex P xs = Some i \<Longrightarrow> i < length xs"
  by (induction xs arbitrary: i) (auto split: if_splits)

lemma saveTicket_ok:
  assumes "ticket_ok t" and "ledger_ok data"
  shows "ledger_ok (saveTicket t data)"
proof -
  have ts: "list_all ticket_ok (getTickets data)"
    using assms(2) by (simp add: ledger_ok_def)
  have "list_all ticket_ok (xs[i := t])" if "list_all ticket_ok xs" for xs i
    using that assms(1) by (auto simp: list_all_iff dest: set_update_subset_insert [THEN subsetD])
  with ts assms(1) show ?thesis
    by (simp add: ledger_ok_def saveTicket_def getTickets_def Let_def split: option.splits)
qed

lemma processInbound_ok:
  assumes "ledger_ok data"
  shows "ledger_ok (fst (snd (processInbound webcamRef uuid now data c)))"
proof (cases webcamRef)
  case None
  with assms show ?thesis by (simp add: processInbound_def)
next
  case (Some cam)
  from processInbound_ticket [of cam uuid now data c] obtain t where
    "processInbound (Some cam) uuid now data c
       = (resetConsole c, saveTicket t data, [GetScreenshot, TicketComplete])"
    and "ticket_ok t"
    by (auto simp: ticket_ok_def)
  with Some assms show ?thesis by (simp add: saveTicket_ok)
qed

lemma processOutbound_ok:
  assumes "ledger_ok data"
  shows "ledger_ok (fst (snd (processOutbound webcamRef now data c)))"
proof (cases "matchedTicket c")
  case None
  with assms show ?thesis by (simp add: processOutbound_def)
next
  case (Some mt)
  show ?thesis
  proof (cases webcamRef)
    case None
    with Some assms show ?thesis by (simp add: processOutbound_def)
  next
    case (Some cam)
    from processOutbound_ticket [OF \<open>matchedTicket c = Some mt\<close>, of cam now data] obtain t where
      "processOutbound (Some cam) now data c
         = (c\<lparr>lastPrintedTicket := Some t\<rparr>, saveTicket t data, [GetScreenshot, SetTimeout 500])"
      and "ticket_ok t"
      by (auto simp: ticket_ok_def)
    with Some assms show ?thesis by (simp add: saveTicket_ok)
  qed
qed

lemma ledger_rerun_effect: "ledger (rerun_effect s) = ledger s"
  by (simp add: rerun_effect_def stability_effect_def stability_cleanup_def clear_ref_def
      clearTimeout_def setTimeout_def Let_def split: option.splits)

lemma step_ledger_ok:
  assumes "ledger_ok (ledger s)"
  shows "ledger_ok (ledger (step e s))"
proof (cases e)
  case (Weight w)
  with assms show ?thesis by (simp add: setCurrentWeight_def ledger_rerun_effect)
next
  case (ManualToggle b)
  with assms show ?thesis by (simp add: setUseManualWeight_def Let_def ledger_rerun_effect)
next
  case (ConfirmInbound cam uuid)
  with processInbound_ok [OF assms, of cam uuid "clock s" "console s"] show ?thesis
    by (simp add: split_beta)
next
  case (ConfirmOutbound cam)
  with processOutbound_ok [OF assms, of cam "clock s" "console s"] show ?thesis
    by (simp add: split_beta)
next
  case (Elapse d)
  with assms show ?thesis by (simp add: advance_def Let_def)
qed (use assms in simp_all)

lemma run_ledger_ok:
  "ledger_ok (ledger s) \<Longrightarrow> ledger_ok (ledger (run es s))"
  by (induction es arbitrary: s) (simp_all add: step_ledger_ok)

lemma ledger_mount: "ledger (mount data) = data"
  by (simp add: mount_def stability_effect_def initial_console_def clear_ref_def setTimeout_def)

text \<open>
  Claim C8.  The ticket that inbound confirm writes is OPEN with none of the outbound and
  financial fields; the ticket that outbound confirm writes is CLOSED with all of them;
  and so every ticket of the ledger has these fields exactly when it is CLOSED, in every
  state the console reaches from a ledger that is empty or satisfies this itself.
\<close>

theorem ticket_fields_iff_closed:
  "ledger_ok None \<and>
   (ledger_ok data \<longrightarrow> ledger_ok (ledger (run es (mount data)))) \<and>
   (\<exists>t. processInbound (Some cam) uuid now data c
           = (resetConsole c, saveTicket t data, [GetScreenshot, TicketComplete]) \<and>
         status t = OPEN \<and>
         outboundWeight t = None \<and> outboundTime t = None \<and> outboundImage t = None \<and>
         netWeight t = None \<and> ratePerKg t = None \<and> totalCost t = None \<and> ticket_ok t) \<and>
   (\<forall>mt. matchedTicket c = Some mt \<longrightarrow>
      (\<exists>t. processOutbound (Some cam) now data c
              = (c\<lparr>lastPrintedTicket := Some t\<rparr>, saveTicket t data,
                 [GetScreenshot, SetTimeout 500]) \<and>
            status t = CLOSED \<and>
            outboundWeight t \<noteq> None \<and> outboundTime t \<noteq> None \<and> outboundImage t \<noteq> None \<and>
            netWeight t \<noteq> None \<and> ratePerKg t \<noteq> None \<and> totalCost t \<noteq> None \<and> ticket_ok t))"
proof (intro conjI impI allI)
  show "ledger_ok None" by (simp add: ledger_ok_def getTickets_def)
next
  assume "ledger_ok data"
  then have "ledger_ok (ledger (mount data))" by (simp add: ledger_mount)
  then show "ledger_ok (ledger (run es (mount data)))" by (rule run_ledger_ok)
next
  from processInbound_ticket [of cam uuid now data c]
  show "\<exists>t. processInbound (Some cam) uuid now data c
           = (resetConsole c, saveTicket t data, [GetScreenshot, TicketComplete]) \<and>
         status t = OPEN \<and>
         outboundWeight t = None \<and> outboundTime t = None \<and> outboundImage t = None \<and>
         netWeight t = None \<and> ratePerKg t = None \<and> totalCost t = None \<and> ticket_ok t"
    by (auto simp: ticket_ok_def)
next
  fix mt assume "matchedTicket c = Some mt"
  from processOutbound_ticket [OF this, of cam now data]
  show "\<exists>t. processOutbound (Some cam) now data c
              = (c\<lparr>lastPrintedTicket := Some t\<rparr>, saveTicket t data,
                 [GetScreenshot, SetTimeout 500]) \<and>
            status t = CLOSED \<and>
            outboundWeight t \<noteq> None \<and> outboundTime t \<noteq> None \<and> outboundImage t \<noteq> None \<and>
            netWeight t \<noteq> None \<and> ratePerKg t \<noteq> None \<and> totalCost t \<noteq> None \<and> ticket_ok t"
    by (auto simp: ticket_ok_def)
qed

lemmas console_defs =
  setCurrentWeight_def rerun_effect_def stability_effect_def stability_cleanup_def
  clear_ref_def clearTimeout_def setTimeout_def advance_def mount_def initial_console_def
  handleCapture_def processInbound_def processOutbound_def resetConsole_def confirm_weight_def
  findOpenTicketByPlate_def saveTicket_def getTickets_def or_text_def Let_def
  sample_camera_def sample_identify_def

text \<open>
  One visit, from the empty store: after the inbound confirm the ledger holds one OPEN
  ticket, after the outbound confirm the same ticket CLOSED.
\<close>

theorem ticket_fields_iff_closed_witness:
  "ledger_ok None \<and> ledger_ok (ledger (run sample_visit (mount None))) \<and>
   map status (getTickets (ledger (run (take 4 sample_visit) (mount None)))) = [OPEN] \<and>
   map status (getTickets (ledger (run sample_visit (mount None)))) = [CLOSED] \<and>
   map status (getTickets (fst (snd (processOutbound (Some sample_camera) 0 None
      outbound_console)))) = [CLOSED]"
proof -
  note w = ticket_fields_iff_closed [of None sample_visit sample_camera "''id-1''" 0
      outbound_console]
  from w have 1: "ledger_ok None" by (rule conjunct1)
  from w [THEN conjunct2, THEN conjunct1, THEN mp, OF 1]
  have 2: "ledger_ok (ledger (run sample_visit (mount None)))" .
  have 3: "map status (getTickets (ledger (run (take 4 sample_visit) (mount None)))) = [OPEN]"
    by (simp add: sample_visit_def console_defs)
  have 4: "map status (getTickets (ledger (run sample_visit (mount None)))) = [CLOSED]"
    by (simp add: sample_visit_def console_defs)
  have m: "matchedTicket outbound_console = Some (sample_ticket ''1'' ''ABC123'' OPEN)"
    by (simp add: outbound_console_def)
  from w [THEN conjunct2, THEN conjunct2, THEN conjunct2, rule_format, OF m]
  obtain t where t: "processOutbound (Some sample_camera) 0 None outbound_console
      = (outbound_console\<lparr>lastPrintedTicket := Some t\<rparr>, saveTicket t None,
         [GetScreenshot, SetTimeout 500])"
    and c: "status t = CLOSED"
    by blast
  have "getTickets (saveTicket t None) = [t]"
    by (simp add: saveTicket_def getTickets_def)
  with t c have 5: "map status (getTickets (fst (snd (processOutbound (Some sample_camera) 0 None
      outbound_console)))) = [CLOSED]"
    by simp
  from 1 2 3 4 5 show ?thesis by blast
qed

section \<open>The stability detector\<close>

lemma rerun_effect_manual:
  assumes "timers_pre s" and "useManualWeight (console s)"
  shows "rerun_effect s
           = s\<lparr>console := (console s)\<lparr>isStable := True\<rparr>, hasCleanup := False, timers := []\<rparr>"
proof (cases "timers s")
  case Nil
  then show ?thesis
    using assms
    by (simp add: rerun_effect_def stability_effect_def stability_cleanup_def clear_ref_def
        clearTimeout_def split: option.splits)
next
  case (Cons t ts)
  with assms(1) have "ts = []" "stabilityTimeoutRef (console s) = Some (fst t)" "hasCleanup s"
    "0 < fst t"
    by (simp_all add: timers_pre_def)
  with Cons assms(2) show ?thesis
    by (simp add: rerun_effect_def stability_effect_def stability_cleanup_def clear_ref_def
        clearTimeout_def)
qed

lemma rerun_effect_scale:
  assumes "timers_pre s" and "\<not> useManualWeight (console s)"
  shows "rerun_effect s
           = s\<lparr>console := (console s)\<lparr>isStable := False, stabilityTimeoutRef := Some (nextTimer s)\<rparr>,
               hasCleanup := True, timers := [(nextTimer s, clock s + 800)],
               nextTimer := nextTimer s + 1\<rparr>"
proof (cases "timers s")
  case Nil
  then show ?thesis
    using assms
    by (simp add: rerun_effect_def stability_effect_def stability_cleanup_def clear_ref_def
        clearTimeout_def setTimeout_def split: option.splits)
next
  case (Cons t ts)
  with assms(1) have "ts = []" "stabilityTimeoutRef (console s) = Some (fst t)" "hasCleanup s"
    "0 < fst t"
    by (simp_all add: timers_pre_def)
  with Cons assms(2) show ?thesis
    by (simp add: rerun_effect_def stability_effect_def stability_cleanup_def clear_ref_def
        clearTimeout_def setTimeout_def)
qed

lemma rerun_effect_ok:
  assumes "timers_pre s"
  shows "timers_ok (rerun_effect s)"
proof (cases "useManualWeight (console s)")
  case True
  with assms show ?thesis
    by (simp add: rerun_effect_manual timers_ok_def timers_pre_def)
next
  case False
  with assms show ?thesis
    by (simp add: rerun_effect_scale timers_ok_def timers_pre_def)
qed

lemma mount_ok: "timers_ok (mount data)"
  by (simp add: mount_def stability_effect_def initial_console_def clear_ref_def setTimeout_def
      timers_ok_def timers_pre_def)

text \<open>Only the effect and the timer callback write the three cells the detector lives in.\<close>

lemma resetConsole_cells:
  "isStable (resetConsole c) = isStable c"
  "useManualWeight (resetConsole c) = useManualWeight c"
  "stabilityTimeoutRef (resetConsole c) = stabilityTimeoutRef c"
  "currentWeight (resetConsole c) = currentWeight c"
  by (simp_all add: resetConsole_def Let_def)

lemma handleCapture_cells:
  "isStable (fst (handleCapture w f d c)) = isStable c"
  "useManualWeight (fst (handleCapture w f d c)) = useManualWeight c"
  "stabilityTimeoutRef (fst (handleCapture w f d c)) = stabilityTimeoutRef c"
  "currentWeight (fst (handleCapture w f d c)) = currentWeight c"
  by (simp_all add: handleCapture_def Let_def split: option.splits)

lemma processInbound_cells:
  "isStable (fst (processInbound w u n d c)) = isStable c"
  "useManualWeight (fst (processInbound w u n d c)) = useManualWeight c"
  "stabilityTimeoutRef (fst (processInbound w u n d c)) = stabilityTimeoutRef c"
  "currentWeight (fst (processInbound w u n d c)) = currentWeight c"
  by (simp_all add: processInbound_def Let_def resetConsole_cells split: option.splits)

lemma processOutbound_cells:
  "isStable (fst (processOutbound w n d c)) = isStable c"
  "useManualWeight (fst (processOutbound w n d c)) = useManualWeight c"
  "stabilityTimeoutRef (fst (processOutbound w n d c)) = stabilityTimeoutRef c"
  "currentWeight (fst (processOutbound w n d c)) = currentWeight c"
  by (simp_all add: processOutbound_def Let_def split: option.splits)

lemma processOutbound_later_cells:
  "isStable (fst (processOutbound_later m c)) = isStable c"
  "useManualWeight (fst (processOutbound_later m c)) = useManualWeight c"
  "stabilityTimeoutRef (fst (processOutbound_later m c)) = stabilityTimeoutRef c"
  "currentWeight (fst (processOutbound_later m c)) = currentWeight c"
  by (simp_all add: processOutbound_later_def resetConsole_def Let_def)

lemma same_detector_ok: "same_detector s s' \<Longrightarrow> timers_ok s \<Longrightarrow> timers_ok s'"
  by (simp add: same_detector_def timers_ok_def timers_pre_def split: list.splits)

lemma step_same_detector:
  assumes "case e of Weight w \<Rightarrow> w = currentWeight (console s)
           | ManualToggle b \<Rightarrow> b = useManualWeight (console s)
           | Elapse d \<Rightarrow> False
           | _ \<Rightarrow> True"
  shows "same_detector s (step e s)"
proof (cases e)
  case (Weight w)
  with assms show ?thesis by (simp add: same_detector_def setCurrentWeight_def)
next
  case (ManualToggle b)
  with assms show ?thesis by (simp add: same_detector_def setUseManualWeight_def Let_def)
next
  case (ManualEntry v)
  then show ?thesis by (simp add: same_detector_def)
next
  case (PlateEntry v)
  then show ?thesis by (simp add: same_detector_def)
next
  case (MaterialEntry v)
  then show ?thesis by (simp add: same_detector_def)
next
  case (Capture cam f)
  then show ?thesis by (simp add: same_detector_def handleCapture_cells)
next
  case (ConfirmInbound cam u)
  then show ?thesis
    using processInbound_cells [of cam u "clock s" "ledger s" "console s"]
    by (simp add: same_detector_def split_beta)
next
  case (ConfirmOutbound cam)
  then show ?thesis
    using processOutbound_cells [of cam "clock s" "ledger s" "console s"]
    by (simp add: same_detector_def split_beta)
next
  case Cancel
  then show ?thesis by (simp add: same_detector_def resetConsole_cells)
next
  case (PrintDone m)
  then show ?thesis by (simp add: same_detector_def processOutbound_later_cells)
next
  case (Elapse d)
  with assms show ?thesis by simp
qed

lemma advance_ok:
  assumes "timers_ok s"
  shows "timers_ok (advance d s)"
proof (cases "timers s")
  case Nil
  with assms show ?thesis
    by (simp add: advance_def Let_def timers_ok_def timers_pre_def)
next
  case (Cons t ts)
  with assms have "ts = []" by (simp add: timers_ok_def timers_pre_def)
  with Cons assms show ?thesis
    by (cases "snd t \<le> clock s + d")
       (simp_all add: advance_def Let_def timers_ok_def timers_pre_def split: if_splits)
qed

lemma step_ok:
  assumes "timers_ok s"
  shows "timers_ok (step e s)"
proof (cases "case e of Weight w \<Rightarrow> w = currentWeight (console s)
           | ManualToggle b \<Rightarrow> b = useManualWeight (console s)
           | Elapse d \<Rightarrow> False
           | _ \<Rightarrow> True")
  case True
  then have "same_detector s (step e s)" by (rule step_same_detector)
  then show ?thesis using assms by (rule same_detector_ok)
next
  case False
  then consider (w) w where "e = Weight w" "w \<noteq> currentWeight (console s)"
    | (m) b where "e = ManualToggle b" "b \<noteq> useManualWeight (console s)"
    | (t) d where "e = Elapse d"
    by (cases e) auto
  then show ?thesis
  proof cases
    case w
    have "timers_pre (s\<lparr>console := (console s)\<lparr>currentWeight := w\<rparr>\<rparr>)"
      using assms by (simp add: timers_ok_def timers_pre_def split: list.splits)
    then have "timers_ok (rerun_effect (s\<lparr>console := (console s)\<lparr>currentWeight := w\<rparr>\<rparr>))"
      by (rule rerun_effect_ok)
    with w show ?thesis by (simp add: setCurrentWeight_def)
  next
    case m
    let ?s1 = "s\<lparr>console := (if b then (console s)\<lparr>useManualWeight := b, manualWeight := ''0''\<rparr>
                                 else (console s)\<lparr>useManualWeight := b\<rparr>)\<rparr>"
    have "timers_pre ?s1"
      using assms by (simp add: timers_ok_def timers_pre_def split: list.splits)
    then have ok: "timers_ok (rerun_effect ?s1)" by (rule rerun_effect_ok)
    have "step e s = rerun_effect ?s1"
      using m by (cases b) (simp_all add: setUseManualWeight_def Let_def)
    with ok show ?thesis by (simp only:)
  next
    case t
    with assms show ?thesis by (simp add: advance_ok)
  qed
qed

lemma run_ok: "timers_ok s \<Longrightarrow> timers_ok (run es s)"
  by (induction es arbitrary: s) (simp_all add: step_ok)

lemma reachable_ok: "timers_ok (run es (mount data))"
  by (rule run_ok) (rule mount_ok)

lemma same_detector_quiet: "same_detector s s' \<Longrightarrow> quiet_inv T s \<Longrightarrow> quiet_inv T s'"
  by (simp add: same_detector_def quiet_inv_def)

lemma advance_quiet:
  assumes "quiet_inv T s"
  shows "quiet_inv T (advance d s)"
proof (cases "isStable (console s)")
  case True
  with assms show ?thesis by (simp add: quiet_inv_def advance_def Let_def)
next
  case False
  with assms have "map snd (timers s) = [T]" "clock s < T" "\<not> useManualWeight (console s)"
    by (simp_all add: quiet_inv_def)
  then obtain i where "timers s = [(i, T)]" "clock s < T" "\<not> useManualWeight (console s)"
    by (cases "timers s") auto
  with False show ?thesis
    by (cases "T \<le> clock s + d") (simp_all add: quiet_inv_def advance_def Let_def)
qed

lemma step_quiet:
  assumes "quiet_inv T s" and "no_change [e] s"
  shows "quiet_inv T (step e s)"
proof (cases "\<exists>d. e = Elapse d")
  case True
  with assms(1) show ?thesis by (auto simp: advance_quiet)
next
  case False
  with assms(2) have "case e of Weight w \<Rightarrow> w = currentWeight (console s)
           | ManualToggle b \<Rightarrow> b = useManualWeight (console s)
           | Elapse d \<Rightarrow> False
           | _ \<Rightarrow> True"
    by (cases e) simp_all
  then have "same_detector s (step e s)" by (rule step_same_detector)
  then show ?thesis using assms(1) by (rule same_detector_quiet)
qed

lemma run_quiet:
  "quiet_inv T s \<Longrightarrow> no_change es s \<Longrightarrow> quiet_inv T (run es s)"
proof (induction es arbitrary: s)
  case Nil
  then show ?case by simp
next
  case (Cons e es)
  from Cons.prems have "no_change [e] s" "no_change es (step e s)" by simp_all
  with Cons.prems(1) have "quiet_inv T (step e s)" by (simp add: step_quiet)
  with Cons.IH \<open>no_change es (step e s)\<close> show ?case by simp
qed

lemma weight_change:
  assumes "timers_ok s" and "\<not> useManualWeight (console s)" and "w \<noteq> currentWeight (console s)"
  shows "setCurrentWeight w s
           = s\<lparr>console := (console s)\<lparr>currentWeight := w, isStable := False,
                                        stabilityTimeoutRef := Some (nextTimer s)\<rparr>,
               hasCleanup := True, timers := [(nextTimer s, clock s + 800)],
               nextTimer := nextTimer s + 1\<rparr>"
proof -
  let ?s1 = "s\<lparr>console := (console s)\<lparr>currentWeight := w\<rparr>\<rparr>"
  have "timers_pre ?s1"
    using assms(1) by (simp add: timers_ok_def timers_pre_def split: list.splits)
  moreover have "\<not> useManualWeight (console ?s1)" using assms(2) by simp
  ultimately have "rerun_effect ?s1
           = ?s1\<lparr>console := (console ?s1)\<lparr>isStable := False, stabilityTimeoutRef := Some (nextTimer ?s1)\<rparr>,
               hasCleanup := True, timers := [(nextTimer ?s1, clock ?s1 + 800)],
               nextTimer := nextTimer ?s1 + 1\<rparr>"
    by (rule rerun_effect_scale)
  with assms(3) show ?thesis by (simp add: setCurrentWeight_def)
qed

text \<open>
  Claim C9.  In every state \<open>s\<close> the mounted console reaches: without the override, a
  reading that differs from the current one sets the state to MOTION at once and leaves
  exactly one pending timer, a new one due 800 ms later (every timer pending before is
  cancelled); from then on, as long as the reading does not change, the state is STABLE
  exactly when 800 ms have passed.  With the override on, the state is STABLE and no
  timer is pending.
\<close>

theorem stability_detector:
  assumes "s = run es (mount data)"
  shows "(\<not> useManualWeight (console s) \<and> w \<noteq> currentWeight (console s) \<longrightarrow>
            \<not> isStable (console (step (Weight w) s)) \<and>
            timers (step (Weight w) s) = [(nextTimer s, clock s + 800)] \<and>
            (\<forall>t \<in> set (timers s). fst t \<noteq> nextTimer s) \<and>
            (\<forall>es'. no_change es' (step (Weight w) s) \<longrightarrow>
               isStable (console (run es' (step (Weight w) s)))
                 = (clock s + 800 \<le> clock (run es' (step (Weight w) s))))) \<and>
         (useManualWeight (console s) \<longrightarrow> isStable (console s) \<and> timers s = [])"
proof -
  have ok: "timers_ok s" unfolding assms by (rule reachable_ok)
  show ?thesis
  proof (intro conjI impI)
    assume a: "\<not> useManualWeight (console s) \<and> w \<noteq> currentWeight (console s)"
    then have eq: "setCurrentWeight w s
           = s\<lparr>console := (console s)\<lparr>currentWeight := w, isStable := False,
                                        stabilityTimeoutRef := Some (nextTimer s)\<rparr>,
               hasCleanup := True, timers := [(nextTimer s, clock s + 800)],
               nextTimer := nextTimer s + 1\<rparr>"
      using ok by (intro weight_change) simp_all
    show "\<not> isStable (console (step (Weight w) s))" by (simp add: eq)
    show "timers (step (Weight w) s) = [(nextTimer s, clock s + 800)]" by (simp add: eq)
    show "\<forall>t \<in> set (timers s). fst t \<noteq> nextTimer s"
      using ok by (auto simp: timers_ok_def timers_pre_def list_all_iff)
    have q: "quiet_inv (clock s + 800) (step (Weight w) s)"
      using a by (simp add: eq quiet_inv_def)
    show "\<forall>es'. no_change es' (step (Weight w) s) \<longrightarrow>
               isStable (console (run es' (step (Weight w) s)))
                 = (clock s + 800 \<le> clock (run es' (step (Weight w) s)))"
    proof (intro allI impI)
      fix es' assume "no_change es' (step (Weight w) s)"
      with q have "quiet_inv (clock s + 800) (run es' (step (Weight w) s))" by (rule run_quiet)
      then show "isStable (console (run es' (step (Weight w) s)))
                 = (clock s + 800 \<le> clock (run es' (step (Weight w) s)))"
        by (auto simp: quiet_inv_def split: if_splits)
    qed
  next
    assume "useManualWeight (console s)"
    with ok show "isStable (console s)" "timers s = []"
      by (simp_all add: timers_ok_def)
  qed
qed

lemmas detector_defs =
  setCurrentWeight_def setUseManualWeight_def rerun_effect_def stability_effect_def
  stability_cleanup_def clear_ref_def clearTimeout_def setTimeout_def advance_def mount_def
  initial_console_def Let_def

text \<open>
  After mounting, a first reading of 100: MOTION with one timer due at 800, still MOTION
  at 799, STABLE at 800 although the same reading arrived again in between; and under
  the override STABLE with no timer, also when a new reading arrives.
\<close>

theorem stability_detector_witness:
  "\<not> isStable (console (step (Weight (Fin 100)) (mount None))) \<and>
   timers (step (Weight (Fin 100)) (mount None)) = [(2, 800)] \<and>
   \<not> isStable (console (run [Elapse 799] (step (Weight (Fin 100)) (mount None)))) \<and>
   isStable (console (run [Elapse 500, Weight (Fin 100), Elapse 300]
      (step (Weight (Fin 100)) (mount None)))) \<and>
   isStable (console (run [ManualToggle True, Weight (Fin 250)] (mount None))) \<and>
   timers (run [ManualToggle True, Weight (Fin 250)] (mount None)) = []"
proof -
  have m: "console (mount None) = initial_console\<lparr>stabilityTimeoutRef := Some 1\<rparr>"
    "nextTimer (mount None) = 2" "clock (mount None) = 0"
    by (simp_all add: detector_defs)
  have a: "\<not> useManualWeight (console (mount None)) \<and> Fin 100 \<noteq> currentWeight (console (mount None))"
    by (simp add: m initial_console_def)
  note w = stability_detector [of "mount None" "[]" None "Fin 100", simplified run.simps,
      OF refl, THEN conjunct1, THEN mp, OF a]
  from w have 1: "\<not> isStable (console (step (Weight (Fin 100)) (mount None)))"
    by (rule conjunct1)
  from w have 2: "timers (step (Weight (Fin 100)) (mount None)) = [(2, 800)]"
    by (simp add: m)
  from w have q: "\<forall>es'. no_change es' (step (Weight (Fin 100)) (mount None)) \<longrightarrow>
               isStable (console (run es' (step (Weight (Fin 100)) (mount None))))
                 = (clock (mount None) + 800 \<le> clock (run es' (step (Weight (Fin 100)) (mount None))))"
    by blast
  have n1: "no_change [Elapse 799] (step (Weight (Fin 100)) (mount None))" by simp
  have c1: "clock (run [Elapse 799] (step (Weight (Fin 100)) (mount None))) = 799"
    by (simp add: detector_defs)
  from q [rule_format, OF n1] c1 m(3)
  have 3: "\<not> isStable (console (run [Elapse 799] (step (Weight (Fin 100)) (mount None))))"
    by simp
  have n2: "no_change [Elapse 500, Weight (Fin 100), Elapse 300]
      (step (Weight (Fin 100)) (mount None))"
    by (simp add: detector_defs)
  have c2: "clock (run [Elapse 500, Weight (Fin 100), Elapse 300]
      (step (Weight (Fin 100)) (mount None))) = 800"
    by (simp add: detector_defs)
  from q [rule_format, OF n2] c2 m(3)
  have 4: "isStable (console (run [Elapse 500, Weight (Fin 100), Elapse 300]
      (step (Weight (Fin 100)) (mount None))))"
    by simp
  have u: "useManualWeight (console (run [ManualToggle True, Weight (Fin 250)] (mount None)))"
    by (simp add: detector_defs)
  note w2 = stability_detector [of "run [ManualToggle True, Weight (Fin 250)] (mount None)"
      "[ManualToggle True, Weight (Fin 250)]" None "Fin 0", OF refl, THEN conjunct2, THEN mp, OF u]
  from 1 2 3 4 w2 show ?thesis by blast
qed

end
